theory Spec2Isabelle
  imports Complex_Main
begin

section \<open>Values, errors and array primitives\<close>

text \<open>
  The analysed module is \<^verbatim>\<open>oect_transfer/transfer.py\<close>.  A one-dimensional
  \<^verbatim>\<open>float64\<close> array whose entries are all finite is a \<open>real list\<close>; arithmetic on
  such entries is exact real arithmetic (rounding and overflow are outside the model).
  The entries of an input array, before validation, may also be NaN or an infinity.
\<close>

datatype float64 = Fin real | NaN | PosInf | NegInf

text \<open>An array as numpy holds it: its shape and its entries in row-major order.\<close>

record ndarray =
  shape :: "nat list"
  data :: "float64 list"

datatype error = ValueError string | IndexError

definition bind_err :: "'e + 'a \<Rightarrow> ('a \<Rightarrow> 'e + 'b) \<Rightarrow> 'e + 'b" where
  "bind_err m k = (case m of Inl e \<Rightarrow> Inl e | Inr v \<Rightarrow> k v)"

text \<open>\<^verbatim>\<open>a[i]\<close> on a one-dimensional array: a negative index counts from the end, an
  index out of range raises IndexError.\<close>

definition getitem :: "real list \<Rightarrow> int \<Rightarrow> error + real" where
  "getitem a i =
     (let n = int (length a); j = (if i < 0 then n + i else i)
      in if 0 \<le> j \<and> j < n then Inr (a ! nat j) else Inl IndexError)"

text \<open>\<^verbatim>\<open>a[i] - a[j]\<close>, the left operand read first.\<close>

definition diff_item :: "real list \<Rightarrow> int \<Rightarrow> int \<Rightarrow> error + real" where
  "diff_item a i j =
     bind_err (getitem a i) (\<lambda>u. bind_err (getitem a j) (\<lambda>v. Inr (u - v)))"

section \<open>The derivative routine\<close>

text \<open>The literal \<^verbatim>\<open>1e-12\<close>.\<close>

definition eps :: real where
  "eps = 1 / 10 ^ 12"

text \<open>\<^verbatim>\<open>dx = dx if abs(dx) > 1e-12 else 1e-12\<close>, the statement that follows every
  spacing computed in \<^verbatim>\<open>safe_diff\<close>.\<close>

definition clamp_dx :: "real \<Rightarrow> real" where
  "clamp_dx dx = (if \<bar>dx\<bar> > eps then dx else eps)"

text \<open>The body of the loop of \<^verbatim>\<open>safe_diff\<close> at index \<open>i\<close>: the value stored in
  \<^verbatim>\<open>df[i]\<close>, with the branches in the order of the source.\<close>

definition safe_diff_at :: "real list \<Rightarrow> real list \<Rightarrow> nat \<Rightarrow> nat \<Rightarrow> error + real" where
  "safe_diff_at f x n i =
     (if i = 0 then
        bind_err (diff_item x 1 0) (\<lambda>dx.
        bind_err (diff_item f 1 0) (\<lambda>d. Inr (d / clamp_dx dx)))
      else if i = n - 1 then
        bind_err (diff_item x (- 1) (- 2)) (\<lambda>dx.
        bind_err (diff_item f (- 1) (- 2)) (\<lambda>d. Inr (d / clamp_dx dx)))
      else
        bind_err (diff_item x (int i) (int i - 1)) (\<lambda>dx1.
        bind_err (diff_item x (int i + 1) (int i)) (\<lambda>dx2.
        bind_err (diff_item f (int i) (int i - 1)) (\<lambda>d1.
        bind_err (diff_item f (int i + 1) (int i)) (\<lambda>d2.
          Inr ((d1 / clamp_dx dx1 + d2 / clamp_dx dx2) / 2))))))"

text \<open>\<^verbatim>\<open>for i in range(n): df[i] = ...\<close>: the indices still to visit and the array
  \<open>df\<close> built so far; an exception leaves the loop.\<close>

fun safe_diff_loop :: "real list \<Rightarrow> real list \<Rightarrow> nat \<Rightarrow> nat list \<Rightarrow> real list \<Rightarrow> error + real list" where
  "safe_diff_loop f x n [] df = Inr df"
| "safe_diff_loop f x n (i # is) df =
     (case safe_diff_at f x n i of
        Inl e \<Rightarrow> Inl e
      | Inr v \<Rightarrow> safe_diff_loop f x n is (df[i := v]))"

definition safe_diff :: "real list \<Rightarrow> real list \<Rightarrow> error + real list" where
  "safe_diff f x =
     (let n = length f in
      if n < 2 then Inr (replicate n 0)
      else safe_diff_loop f x n [0..<n] (replicate n 0))"

section \<open>numpy reductions on one-dimensional arrays\<close>

text \<open>
  \<^verbatim>\<open>a.argmax()\<close> and \<^verbatim>\<open>a.argmin()\<close> scan the array once and keep the position of
  the best entry seen so far; an entry replaces it only when strictly better, so the
  first occurrence of the extremum is returned.  On an empty array numpy raises
  ValueError.  The arrays reduced here never hold NaN.
\<close>

fun argmax_loop :: "real list \<Rightarrow> nat \<Rightarrow> nat \<Rightarrow> real \<Rightarrow> nat" where
  "argmax_loop [] i best_i best = best_i"
| "argmax_loop (v # vs) i best_i best =
     (if v > best then argmax_loop vs (Suc i) i v else argmax_loop vs (Suc i) best_i best)"

definition argmax :: "real list \<Rightarrow> error + nat" where
  "argmax a =
     (case a of
        [] \<Rightarrow> Inl (ValueError ''attempt to get argmax of an empty sequence'')
      | v # vs \<Rightarrow> Inr (argmax_loop vs 1 0 v))"

fun argmin_loop :: "real list \<Rightarrow> nat \<Rightarrow> nat \<Rightarrow> real \<Rightarrow> nat" where
  "argmin_loop [] i best_i best = best_i"
| "argmin_loop (v # vs) i best_i best =
     (if v < best then argmin_loop vs (Suc i) i v else argmin_loop vs (Suc i) best_i best)"

definition argmin :: "real list \<Rightarrow> error + nat" where
  "argmin a =
     (case a of
        [] \<Rightarrow> Inl (ValueError ''attempt to get argmin of an empty sequence'')
      | v # vs \<Rightarrow> Inr (argmin_loop vs 1 0 v))"

text \<open>\<^verbatim>\<open>a.max()\<close> and \<^verbatim>\<open>a.min()\<close>; ValueError on an empty array.\<close>

definition amax :: "real list \<Rightarrow> error + real" where
  "amax a =
     (case a of
        [] \<Rightarrow> Inl (ValueError ''zero-size array to reduction operation maximum which has no identity'')
      | v # vs \<Rightarrow> Inr (fold max vs v))"

definition amin :: "real list \<Rightarrow> error + real" where
  "amin a =
     (case a of
        [] \<Rightarrow> Inl (ValueError ''zero-size array to reduction operation minimum which has no identity'')
      | v # vs \<Rightarrow> Inr (fold min vs v))"

text \<open>\<^verbatim>\<open>abs(a)\<close> on an array.\<close>

definition abs_arr :: "real list \<Rightarrow> real list" where
  "abs_arr a = map abs a"

section \<open>The records of the module\<close>

record Sequence =
  raw :: "real list"
  forward :: "real list"
  reverse :: "real list"

text \<open>
  The dataclass \<^verbatim>\<open>Point\<close>.  Its field \<^verbatim>\<open>where\<close> is \<open>where'\<close> here.  The fields
  \<^verbatim>\<open>forward\<close> and \<^verbatim>\<open>reverse\<close> are options because \<^verbatim>\<open>_compute_Von\<close> has a branch
  that stores \<^verbatim>\<open>None\<close> in them.
\<close>

record Point =
  raw :: real
  where' :: string
  forward :: "real option"
  reverse :: "real option"

record Transfer =
  Vg :: Sequence
  I :: Sequence
  gm :: Sequence
  gm_max :: Point
  I_max :: Point
  I_min :: Point
  Von :: Point

section \<open>Validation of the inputs\<close>

definition ndim :: "ndarray \<Rightarrow> nat" where
  "ndim a = length (shape a)"

definition size_arr :: "ndarray \<Rightarrow> nat" where
  "size_arr a = prod_list (shape a)"

definition isnan :: "float64 \<Rightarrow> bool" where
  "isnan v = (v = NaN)"

definition isinf :: "float64 \<Rightarrow> bool" where
  "isinf v = (v = PosInf \<or> v = NegInf)"

text \<open>\<^verbatim>\<open>np.any(p(a))\<close>.\<close>

definition any_arr :: "(float64 \<Rightarrow> bool) \<Rightarrow> ndarray \<Rightarrow> bool" where
  "any_arr p a = list_ex p (data a)"

text \<open>
  The checks at the head of \<^verbatim>\<open>Transfer.__init__\<close>, in the order of the source.  All
  five raise \<^verbatim>\<open>ValueError\<close>; they differ in the message.  \<^verbatim>\<open>x.shape[0]\<close> is read
  only after both arrays are known to have exactly one axis.  (The two \<^verbatim>\<open>print\<close>
  calls before the second \<^verbatim>\<open>raise\<close> write to standard output and are left out.)
\<close>

definition validate :: "ndarray \<Rightarrow> ndarray \<Rightarrow> error + unit" where
  "validate x y =
     (if ndim x \<noteq> 1 \<or> ndim y \<noteq> 1 then
        Inl (ValueError ''x and y must be 1D arrays.'')
      else if hd (shape x) \<noteq> hd (shape y) then
        Inl (ValueError ''x and y must have the same length.'')
      else if size_arr x = 0 \<or> size_arr y = 0 then
        Inl (ValueError ''x and y must not be empty.'')
      else if any_arr isnan x \<or> any_arr isnan y then
        Inl (ValueError ''x and y must not contain NaN values.'')
      else if any_arr isinf x \<or> any_arr isinf y then
        Inl (ValueError ''x and y must not contain infinite values.'')
      else Inr ())"

text \<open>The value of a finite entry; it is applied to validated arrays only.\<close>

fun fin :: "float64 \<Rightarrow> real" where
  "fin (Fin r) = r"

section \<open>The derived quantities\<close>

definition compute_gm :: "Sequence \<Rightarrow> Sequence \<Rightarrow> error + Sequence" where
  "compute_gm vg cur =
     bind_err (safe_diff (Sequence.raw cur) (Sequence.raw vg)) (\<lambda>r.
     bind_err (safe_diff (Sequence.forward cur) (Sequence.forward vg)) (\<lambda>fw.
     bind_err (safe_diff (Sequence.reverse cur) (Sequence.reverse vg)) (\<lambda>rv.
       Inr \<lparr>Sequence.raw = r, Sequence.forward = fw, Sequence.reverse = rv\<rparr>)))"

text \<open>The three-way comparison that sets \<^verbatim>\<open>where\<close> in each of the four
  \<^verbatim>\<open>_compute_*\<close> methods.\<close>

definition where_of :: "nat \<Rightarrow> nat \<Rightarrow> string" where
  "where_of idx index =
     (if idx < index then ''forward''
      else if idx = index then ''turning_point''
      else ''reverse'')"

definition compute_gm_max :: "Sequence \<Rightarrow> Sequence \<Rightarrow> error + Point" where
  "compute_gm_max vg g =
     bind_err (argmax (Sequence.raw g)) (\<lambda>gm_max_index.
     bind_err (argmax (Sequence.raw vg)) (\<lambda>index.
     bind_err (amax (Sequence.raw g)) (\<lambda>r.
     bind_err (amax (Sequence.forward g)) (\<lambda>fw.
     bind_err (amax (Sequence.reverse g)) (\<lambda>rv.
       Inr \<lparr>Point.raw = r, where' = where_of gm_max_index index,
            Point.forward = Some fw, Point.reverse = Some rv\<rparr>)))))"

definition compute_I_max :: "Sequence \<Rightarrow> Sequence \<Rightarrow> error + Point" where
  "compute_I_max vg cur =
     bind_err (argmax (abs_arr (Sequence.raw cur))) (\<lambda>I_max_index.
     bind_err (argmax (Sequence.raw vg)) (\<lambda>index.
     bind_err (amax (abs_arr (Sequence.raw cur))) (\<lambda>r.
     bind_err (amax (abs_arr (Sequence.forward cur))) (\<lambda>fw.
     bind_err (amax (abs_arr (Sequence.reverse cur))) (\<lambda>rv.
       Inr \<lparr>Point.raw = r, where' = where_of I_max_index index,
            Point.forward = Some fw, Point.reverse = Some rv\<rparr>)))))"

definition compute_I_min :: "Sequence \<Rightarrow> Sequence \<Rightarrow> error + Point" where
  "compute_I_min vg cur =
     bind_err (argmin (abs_arr (Sequence.raw cur))) (\<lambda>I_min_index.
     bind_err (argmax (Sequence.raw vg)) (\<lambda>index.
     bind_err (amin (abs_arr (Sequence.raw cur))) (\<lambda>r.
     bind_err (amin (abs_arr (Sequence.forward cur))) (\<lambda>fw.
     bind_err (amin (abs_arr (Sequence.reverse cur))) (\<lambda>rv.
       Inr \<lparr>Point.raw = r, where' = where_of I_min_index index,
            Point.forward = Some fw, Point.reverse = Some rv\<rparr>)))))"

text \<open>\<^verbatim>\<open>np.log10(np.clip(abs(a), 1e-12, None))\<close>.\<close>

definition log_Id :: "real list \<Rightarrow> real list" where
  "log_Id a = map (\<lambda>v. log 10 (max v eps)) (abs_arr a)"

text \<open>\<^verbatim>\<open>str.upper\<close> on the ASCII letters.\<close>

definition upper_char :: "char \<Rightarrow> char" where
  "upper_char c =
     (let k = (of_char c :: nat) in if 97 \<le> k \<and> k \<le> 122 then char_of (k - 32) else c)"

definition upper :: "string \<Rightarrow> string" where
  "upper s = map upper_char s"

text \<open>The choice between \<^verbatim>\<open>argmax\<close> and \<^verbatim>\<open>argmin\<close> made for each of the three
  log-slope curves.\<close>

definition slope_index :: "string \<Rightarrow> real list \<Rightarrow> error + nat" where
  "slope_index device_type d =
     (if upper device_type = ''N'' then argmax d else argmin d)"

text \<open>\<^verbatim>\<open>a[idx] if len(a) > 0 else None\<close>.\<close>

definition item_or_None :: "real list \<Rightarrow> nat \<Rightarrow> error + real option" where
  "item_or_None a idx =
     (if length a > 0 then bind_err (getitem a (int idx)) (\<lambda>v. Inr (Some v))
      else Inr None)"

definition compute_Von :: "Sequence \<Rightarrow> Sequence \<Rightarrow> string \<Rightarrow> error + Point" where
  "compute_Von vg cur device_type =
     bind_err (safe_diff (log_Id (Sequence.raw cur)) (Sequence.raw vg)) (\<lambda>dlogId_dVg_raw.
     bind_err (slope_index device_type dlogId_dVg_raw) (\<lambda>idx_raw.
     bind_err (getitem (Sequence.raw vg) (int idx_raw)) (\<lambda>Von_raw.
     bind_err (safe_diff (log_Id (Sequence.forward cur)) (Sequence.forward vg)) (\<lambda>dlogId_dVg_forward.
     bind_err (slope_index device_type dlogId_dVg_forward) (\<lambda>idx_forward.
     bind_err (item_or_None (Sequence.forward vg) idx_forward) (\<lambda>Von_forward.
     bind_err (safe_diff (log_Id (Sequence.reverse cur)) (Sequence.reverse vg)) (\<lambda>dlogId_dVg_reverse.
     bind_err (slope_index device_type dlogId_dVg_reverse) (\<lambda>idx_reverse.
     bind_err (item_or_None (Sequence.reverse vg) idx_reverse) (\<lambda>Von_reverse.
     bind_err (argmax (Sequence.raw vg)) (\<lambda>index.
       Inr \<lparr>Point.raw = Von_raw, where' = where_of idx_raw index,
            Point.forward = Von_forward, Point.reverse = Von_reverse\<rparr>))))))))))"

section \<open>The constructor\<close>

text \<open>The split of both arrays at \<^verbatim>\<open>max_idx = x.argmax()\<close>:
  \<^verbatim>\<open>a[:max_idx + 1]\<close> and \<^verbatim>\<open>a[max_idx:]\<close>.\<close>

definition split_at :: "nat \<Rightarrow> real list \<Rightarrow> Sequence" where
  "split_at max_idx a =
     \<lparr>Sequence.raw = a, Sequence.forward = take (max_idx + 1) a,
      Sequence.reverse = drop max_idx a\<rparr>"

definition Transfer_init :: "ndarray \<Rightarrow> ndarray \<Rightarrow> string \<Rightarrow> error + Transfer" where
  "Transfer_init x y device_type =
     bind_err (validate x y) (\<lambda>_.
     let xs = map fin (data x); ys = map fin (data y) in
     bind_err (argmax xs) (\<lambda>max_idx.
     let vg = split_at max_idx xs; cur = split_at max_idx ys in
     bind_err (compute_gm vg cur) (\<lambda>g.
     bind_err (compute_gm_max vg g) (\<lambda>gmx.
     bind_err (compute_I_max vg cur) (\<lambda>imx.
     bind_err (compute_I_min vg cur) (\<lambda>imn.
     bind_err (compute_Von vg cur device_type) (\<lambda>von.
       Inr \<lparr>Vg = vg, I = cur, gm = g, gm_max = gmx, I_max = imx, I_min = imn,
            Von = von\<rparr>)))))))"

text \<open>An array object is well formed when it holds as many entries as its shape says.\<close>

definition wf_ndarray :: "ndarray \<Rightarrow> bool" where
  "wf_ndarray a = (length (data a) = prod_list (shape a))"

section \<open>The sweep of the module's demonstration\<close>

text \<open>The arrays that the \<^verbatim>\<open>__main__\<close> block of the module passes to \<^verbatim>\<open>Transfer\<close>.\<close>

definition demo_x :: ndarray where
  "demo_x = \<lparr>shape = [7], data = map Fin [0, 1, 2, 3, 2, 1, 0]\<rparr>"

definition demo_y :: ndarray where
  "demo_y = \<lparr>shape = [7], data = map Fin [0, 1, 4, 6, 8, 23, 6]\<rparr>"

section \<open>Properties of the derivative routine\<close>

lemma eps_pos: "0 < eps"
  by (simp add: eps_def)

lemma getitem_nat: "i < length a \<Longrightarrow> getitem a (int i) = Inr (a ! i)"
  by (simp add: getitem_def)

lemma getitem_neg:
  "0 < k \<Longrightarrow> k \<le> length a \<Longrightarrow> getitem a (- int k) = Inr (a ! (length a - k))"
  by (simp add: getitem_def Let_def nat_diff_distrib' of_nat_diff)

lemma diff_item_nat:
  "i < length a \<Longrightarrow> j < length a \<Longrightarrow> diff_item a (int i) (int j) = Inr (a ! i - a ! j)"
  by (simp add: diff_item_def bind_err_def getitem_nat)

lemma diff_item_last:
  "2 \<le> length a \<Longrightarrow> diff_item a (- 1) (- 2) = Inr (a ! (length a - 1) - a ! (length a - 2))"
  using getitem_neg [of 1 a] getitem_neg [of 2 a]
  by (simp add: diff_item_def bind_err_def)

text \<open>The value stored at index \<open>i\<close> when no read is out of range.\<close>

lemma safe_diff_at_first:
  assumes "2 \<le> length f" "2 \<le> length x"
  shows "safe_diff_at f x n 0 = Inr ((f ! 1 - f ! 0) / clamp_dx (x ! 1 - x ! 0))"
proof -
  have "x \<noteq> []" "f \<noteq> []" using assms by auto
  then show ?thesis
    using assms diff_item_nat [of 1 x 0] diff_item_nat [of 1 f 0]
    by (simp add: safe_diff_at_def bind_err_def)
qed

lemma safe_diff_at_last:
  assumes "2 \<le> length f" "2 \<le> length x" "i = n - 1" "i \<noteq> 0"
  shows "safe_diff_at f x n i =
     Inr ((f ! (length f - 1) - f ! (length f - 2)) / clamp_dx (x ! (length x - 1) - x ! (length x - 2)))"
  using assms diff_item_last [of x] diff_item_last [of f]
  by (simp add: safe_diff_at_def bind_err_def)

lemma safe_diff_at_interior:
  assumes "Suc i < length f" "Suc i < length x" "i \<noteq> n - 1" "i \<noteq> 0"
  shows "safe_diff_at f x n i =
     Inr (((f ! i - f ! (i - 1)) / clamp_dx (x ! i - x ! (i - 1))
          + (f ! (i + 1) - f ! i) / clamp_dx (x ! (i + 1) - x ! i)) / 2)"
proof -
  have i1: "int i - 1 = int (i - 1)" and i2: "int i + 1 = int (i + 1)"
    using assms by auto
  show ?thesis
    using assms diff_item_nat [of i x "i - 1"] diff_item_nat [of "i + 1" x i]
      diff_item_nat [of i f "i - 1"] diff_item_nat [of "i + 1" f i]
    unfolding safe_diff_at_def i1 i2
    by (simp add: bind_err_def)
qed

lemma safe_diff_loop_fold:
  "\<forall>i \<in> set is. safe_diff_at f x n i = Inr (g i) \<Longrightarrow>
   safe_diff_loop f x n is df = Inr (fold (\<lambda>i d. d[i := g i]) is df)"
  by (induction "is" arbitrary: df) auto

lemma length_fold_upd: "length (fold (\<lambda>i d. d[i := g i]) is df) = length df"
  by (induction "is" arbitrary: df) auto

lemma fold_upd_upt:
  "m \<le> length df \<Longrightarrow> j < m \<Longrightarrow> fold (\<lambda>i d. d[i := g i]) [0..<m] df ! j = g j"
proof (induction m)
  case 0
  then show ?case by simp
next
  case (Suc m)
  then show ?case
    by (cases "j = m") (auto simp: length_fold_upd nth_list_update)
qed

lemma fold_upd_upt_eq:
  "length df = m \<Longrightarrow> fold (\<lambda>i d. d[i := g i]) [0..<m] df = map g [0..<m]"
  by (rule nth_equalityI) (auto simp: length_fold_upd fold_upd_upt)


lemma safe_diff_short: "length f < 2 \<Longrightarrow> safe_diff f x = Inr (replicate (length f) 0)"
  by (simp add: safe_diff_def)

lemma safe_diff_closed:
  assumes "2 \<le> length f" "length f \<le> length x"
  shows "safe_diff f x = Inr (map (\<lambda>i.
     if i = 0 then (f ! 1 - f ! 0) / clamp_dx (x ! 1 - x ! 0)
     else if i = length f - 1 then
       (f ! (length f - 1) - f ! (length f - 2)) / clamp_dx (x ! (length x - 1) - x ! (length x - 2))
     else ((f ! i - f ! (i - 1)) / clamp_dx (x ! i - x ! (i - 1))
          + (f ! (i + 1) - f ! i) / clamp_dx (x ! (i + 1) - x ! i)) / 2) [0..<length f])"
  (is "_ = Inr (map ?g _)")
proof -
  have "\<forall>i \<in> set [0..<length f]. safe_diff_at f x (length f) i = Inr (?g i)"
  proof
    fix i assume "i \<in> set [0..<length f]"
    then have i: "i < length f" by simp
    show "safe_diff_at f x (length f) i = Inr (?g i)"
    proof (cases "i = 0")
      case True
      then show ?thesis using assms safe_diff_at_first [of f x "length f"] by simp
    next
      case nz: False
      show ?thesis
      proof (cases "i = length f - 1")
        case True
        then show ?thesis using nz assms safe_diff_at_last [of f x i "length f"] by simp
      next
        case False
        then have "Suc i < length f" using i by linarith
        then show ?thesis
          using nz False assms safe_diff_at_interior [of i f x "length f"] by simp
      qed
    qed
  qed
  then have "safe_diff_loop f x (length f) [0..<length f] (replicate (length f) 0)
      = Inr (fold (\<lambda>i d. d[i := ?g i]) [0..<length f] (replicate (length f) 0))"
    by (rule safe_diff_loop_fold)
  also have "fold (\<lambda>i d. d[i := ?g i]) [0..<length f] (replicate (length f) 0) = map ?g [0..<length f]"
    by (rule fold_upd_upt_eq) simp
  finally show ?thesis using assms by (simp add: safe_diff_def Let_def)
qed

lemma safe_diff_length: "safe_diff f x = Inr df \<Longrightarrow> length df = length f"
proof (cases "length f < 2")
  case True
  assume "safe_diff f x = Inr df"
  then show ?thesis using True by (auto simp: safe_diff_short)
next
  case False
  assume a: "safe_diff f x = Inr df"
  have "\<And>df0. safe_diff_loop f x n is df0 = Inr df \<Longrightarrow> length df = length df0" for n "is"
    by (induction "is") (auto split: sum.splits)
  then show ?thesis using a False by (auto simp: safe_diff_def Let_def)
qed

section \<open>Claims about the derivative routine\<close>

text \<open>
  Claim C1.  For equal-length \<open>f\<close> and \<open>x\<close> with at least two samples, \<^verbatim>\<open>safe_diff\<close>
  returns an array of the length of \<open>f\<close>.  Its entry 0 is the forward difference
  \<open>(f[1] - f[0]) / dx\<close> with \<open>dx = x[1] - x[0]\<close>, its last entry is the backward
  difference \<open>(f[-1] - f[-2]) / dx\<close> with \<open>dx = x[-1] - x[-2]\<close>, and every interior
  entry \<open>i\<close> is the mean of \<open>(f[i] - f[i-1]) / dx1\<close> and \<open>(f[i+1] - f[i]) / dx2\<close>;
  each denominator has passed through the clamp \<open>clamp_dx\<close>.
\<close>

theorem safe_diff_formulas:
  assumes "length x = length f" "2 \<le> length f"
  shows "\<exists>df. safe_diff f x = Inr df \<and> length df = length f
     \<and> df ! 0 = (f ! 1 - f ! 0) / clamp_dx (x ! 1 - x ! 0)
     \<and> df ! (length f - 1) =
         (f ! (length f - 1) - f ! (length f - 2))
           / clamp_dx (x ! (length f - 1) - x ! (length f - 2))
     \<and> (\<forall>i. 0 < i \<and> i < length f - 1 \<longrightarrow>
          df ! i = ((f ! i - f ! (i - 1)) / clamp_dx (x ! i - x ! (i - 1))
                   + (f ! (i + 1) - f ! i) / clamp_dx (x ! (i + 1) - x ! i)) / 2)"
proof -
  have le: "length f \<le> length x" using assms by simp
  have pos: "0 < length f" and last: "length f - 1 < length f" and nz: "length f - 1 \<noteq> 0"
    using assms by auto
  obtain df where df: "safe_diff f x = Inr df" and
    nth: "\<And>i. i < length f \<Longrightarrow> df ! i =
     (if i = 0 then (f ! 1 - f ! 0) / clamp_dx (x ! 1 - x ! 0)
     else if i = length f - 1 then
       (f ! (length f - 1) - f ! (length f - 2)) / clamp_dx (x ! (length x - 1) - x ! (length x - 2))
     else ((f ! i - f ! (i - 1)) / clamp_dx (x ! i - x ! (i - 1))
          + (f ! (i + 1) - f ! i) / clamp_dx (x ! (i + 1) - x ! i)) / 2)"
    using safe_diff_closed [OF assms(2) le] by simp
  have "length df = length f" using df by (rule safe_diff_length)
  moreover have "df ! 0 = (f ! 1 - f ! 0) / clamp_dx (x ! 1 - x ! 0)"
    using nth [OF pos] by simp
  moreover have "df ! (length f - 1) =
         (f ! (length f - 1) - f ! (length f - 2))
           / clamp_dx (x ! (length f - 1) - x ! (length f - 2))"
    using nth [OF last] nz assms(1) by simp
  moreover have "\<forall>i. 0 < i \<and> i < length f - 1 \<longrightarrow>
          df ! i = ((f ! i - f ! (i - 1)) / clamp_dx (x ! i - x ! (i - 1))
                   + (f ! (i + 1) - f ! i) / clamp_dx (x ! (i + 1) - x ! i)) / 2"
    using nth by auto
  ultimately show ?thesis using df by blast
qed

theorem safe_diff_formulas_witness:
  "length [0, 1, 2 :: real] = length [0, 1, 4 :: real] \<and> 2 \<le> length [0, 1, 4 :: real]
   \<and> (\<exists>df. safe_diff [0, 1, 4] [0, 1, 2] = Inr df \<and> length df = 3
          \<and> df ! 0 = 1 \<and> df ! 1 = 2 \<and> df ! 2 = 3)"
proof -
  have h: "length [0, 1, 2 :: real] = length [0, 1, 4 :: real]" "2 \<le> length [0, 1, 4 :: real]"
    by simp_all
  from safe_diff_formulas [OF h] obtain df where
    df: "safe_diff [0, 1, 4] [0, 1, 2] = Inr df" and
    len: "length df = length [0, 1, 4 :: real]" and
    d0: "df ! 0 = ([0, 1, 4] ! 1 - [0, 1, 4] ! 0) / clamp_dx ([0, 1, 2] ! 1 - [0, 1, 2] ! 0)" and
    d2: "df ! (length [0, 1, 4 :: real] - 1) =
         ([0, 1, 4] ! (length [0, 1, 4 :: real] - 1) - [0, 1, 4] ! (length [0, 1, 4 :: real] - 2))
           / clamp_dx ([0, 1, 2] ! (length [0, 1, 4 :: real] - 1) - [0, 1, 2] ! (length [0, 1, 4 :: real] - 2))" and
    mid: "\<forall>i. 0 < i \<and> i < length [0, 1, 4 :: real] - 1 \<longrightarrow>
          df ! i = (([0, 1, 4] ! i - [0, 1, 4] ! (i - 1)) / clamp_dx ([0, 1, 2] ! i - [0, 1, 2] ! (i - 1))
                   + ([0, 1, 4] ! (i + 1) - [0, 1, 4] ! i) / clamp_dx ([0, 1, 2] ! (i + 1) - [0, 1, 2] ! i)) / 2"
    by blast
  have "length df = 3" using len by simp
  moreover have "df ! 0 = 1" using d0 by (simp add: clamp_dx_def eps_def)
  moreover have "df ! 2 = 3" using d2 by (simp add: clamp_dx_def eps_def numeral_2_eq_2)
  moreover have "df ! 1 = 2" using mid [rule_format, of 1] by (simp add: clamp_dx_def eps_def)
  ultimately show ?thesis using df h by blast
qed

lemma safe_diff_ok:
  assumes "2 \<le> length f" "length f \<le> length x"
  shows "\<exists>df. safe_diff f x = Inr df \<and> length df = length f
     \<and> df ! 0 = (f ! 1 - f ! 0) / clamp_dx (x ! 1 - x ! 0)
     \<and> df ! (length f - 1) =
         (f ! (length f - 1) - f ! (length f - 2))
           / clamp_dx (x ! (length x - 1) - x ! (length x - 2))
     \<and> (\<forall>i. 0 < i \<longrightarrow> i < length f - 1 \<longrightarrow>
          df ! i = ((f ! i - f ! (i - 1)) / clamp_dx (x ! i - x ! (i - 1))
                   + (f ! (i + 1) - f ! i) / clamp_dx (x ! (i + 1) - x ! i)) / 2)"
proof -
  have pos: "0 < length f" and last: "length f - 1 < length f" and nz: "length f - 1 \<noteq> 0"
    using assms by auto
  obtain df where df: "safe_diff f x = Inr df" and
    nth: "\<And>i. i < length f \<Longrightarrow> df ! i =
     (if i = 0 then (f ! 1 - f ! 0) / clamp_dx (x ! 1 - x ! 0)
     else if i = length f - 1 then
       (f ! (length f - 1) - f ! (length f - 2)) / clamp_dx (x ! (length x - 1) - x ! (length x - 2))
     else ((f ! i - f ! (i - 1)) / clamp_dx (x ! i - x ! (i - 1))
          + (f ! (i + 1) - f ! i) / clamp_dx (x ! (i + 1) - x ! i)) / 2)"
    using safe_diff_closed [OF assms] by simp
  have "length df = length f" using df by (rule safe_diff_length)
  moreover have "df ! 0 = (f ! 1 - f ! 0) / clamp_dx (x ! 1 - x ! 0)"
    using nth [OF pos] by simp
  moreover have "df ! (length f - 1) =
         (f ! (length f - 1) - f ! (length f - 2))
           / clamp_dx (x ! (length x - 1) - x ! (length x - 2))"
    using nth [OF last] nz by simp
  moreover have "\<forall>i. 0 < i \<longrightarrow> i < length f - 1 \<longrightarrow>
          df ! i = ((f ! i - f ! (i - 1)) / clamp_dx (x ! i - x ! (i - 1))
                   + (f ! (i + 1) - f ! i) / clamp_dx (x ! (i + 1) - x ! i)) / 2"
    using nth by auto
  ultimately show ?thesis using df by blast
qed

lemma clamp_dx_cases: "clamp_dx dx = (if \<bar>dx\<bar> \<le> eps then eps else dx)"
  by (simp add: clamp_dx_def)

text \<open>
  The spacing \<open>x[1] - x[0] = -1e-12\<close> has an absolute value that is not below \<open>1e-12\<close>,
  yet the routine divides by \<open>+1e-12\<close>: the guard of the source is
  \<^verbatim>\<open>abs(dx) > 1e-12\<close>, so a spacing of magnitude exactly \<open>1e-12\<close> is replaced too.
  With the spacing unchanged both entries would be \<open>-10^12\<close>.
\<close>

theorem safe_diff_clamp_boundary_counterexample:
  "\<not> \<bar>(0::real) - 1 / 10 ^ 12\<bar> < 1 / 10 ^ 12
   \<and> safe_diff [0, 1] [1 / 10 ^ 12, 0] = Inr [10 ^ 12, 10 ^ 12]
   \<and> (1 - 0) / (0 - 1 / 10 ^ 12) = - (10 ^ 12 :: real)"
  by (simp add: safe_diff_closed clamp_dx_def eps_def)

text \<open>
  Claim C2, amended at the boundary.  Write \<open>q i\<close> for the one-sided quotient between the
  samples \<open>i\<close> and \<open>i + 1\<close>; the first entry of the result is \<open>q 0\<close>, the last is the
  last quotient, and an interior entry is the mean of its two neighbouring quotients.
  A spacing whose absolute value is at most \<open>1e-12\<close> (a small negative one included)
  is replaced by the positive constant \<open>1e-12\<close> before dividing; a spacing whose
  absolute value is strictly above \<open>1e-12\<close> is used unchanged.
\<close>

theorem safe_diff_clamp:
  assumes "length x = length f" "2 \<le> length f"
  shows "\<exists>df q. safe_diff f x = Inr df
     \<and> df ! 0 = q 0
     \<and> df ! (length f - 1) = q (length f - 2)
     \<and> (\<forall>i. 0 < i \<and> i < length f - 1 \<longrightarrow> df ! i = (q (i - 1) + q i) / 2)
     \<and> (\<forall>i. Suc i < length f \<longrightarrow>
          (\<bar>x ! Suc i - x ! i\<bar> \<le> eps \<longrightarrow> q i = (f ! Suc i - f ! i) / eps)
        \<and> (\<bar>x ! Suc i - x ! i\<bar> > eps \<longrightarrow> q i = (f ! Suc i - f ! i) / (x ! Suc i - x ! i)))
     \<and> 0 < eps"
proof -
  define q where "q i = (f ! Suc i - f ! i) / clamp_dx (x ! Suc i - x ! i)" for i
  have le: "length f \<le> length x" using assms by simp
  have pos: "0 < length f" and last: "length f - 1 < length f" and nz: "length f - 1 \<noteq> 0"
    using assms by auto
  obtain df where df: "safe_diff f x = Inr df" and
    nth: "\<And>i. i < length f \<Longrightarrow> df ! i =
     (if i = 0 then (f ! 1 - f ! 0) / clamp_dx (x ! 1 - x ! 0)
     else if i = length f - 1 then
       (f ! (length f - 1) - f ! (length f - 2)) / clamp_dx (x ! (length x - 1) - x ! (length x - 2))
     else ((f ! i - f ! (i - 1)) / clamp_dx (x ! i - x ! (i - 1))
          + (f ! (i + 1) - f ! i) / clamp_dx (x ! (i + 1) - x ! i)) / 2)"
    using safe_diff_closed [OF assms(2) le] by simp
  have suc: "Suc (length f - 2) = length f - 1" using assms by simp
  have "df ! 0 = q 0"
    using nth [OF pos] by (simp add: q_def)
  moreover have "df ! (length f - 1) = q (length f - 2)"
    using nth [OF last] nz assms(1) by (simp add: q_def suc)
  moreover have "\<forall>i. 0 < i \<and> i < length f - 1 \<longrightarrow> df ! i = (q (i - 1) + q i) / 2"
    using nth by (auto simp: q_def)
  moreover have "\<forall>i. Suc i < length f \<longrightarrow>
          (\<bar>x ! Suc i - x ! i\<bar> \<le> eps \<longrightarrow> q i = (f ! Suc i - f ! i) / eps)
        \<and> (\<bar>x ! Suc i - x ! i\<bar> > eps \<longrightarrow> q i = (f ! Suc i - f ! i) / (x ! Suc i - x ! i))"
    by (simp add: q_def clamp_dx_cases)
  ultimately show ?thesis using df eps_pos by blast
qed

theorem safe_diff_clamp_witness:
  "length [0, 0, 2 :: real] = length [0, 1, 4 :: real] \<and> 2 \<le> length [0, 1, 4 :: real]
   \<and> (\<exists>df. safe_diff [0, 1, 4] [0, 0, 2] = Inr df
          \<and> df ! 0 = 10 ^ 12 \<and> df ! 1 = (10 ^ 12 + 3 / 2) / 2 \<and> df ! 2 = 3 / 2)"
proof -
  have h: "length [0, 0, 2 :: real] = length [0, 1, 4 :: real]" "2 \<le> length [0, 1, 4 :: real]"
    by simp_all
  from safe_diff_clamp [OF h] obtain df q where
    df: "safe_diff [0, 1, 4] [0, 0, 2] = Inr df" and
    d0: "df ! 0 = q 0" and
    d2: "df ! (length [0, 1, 4 :: real] - 1) = q (length [0, 1, 4 :: real] - 2)" and
    mid: "\<forall>i. 0 < i \<and> i < length [0, 1, 4 :: real] - 1 \<longrightarrow> df ! i = (q (i - 1) + q i) / 2" and
    q: "\<forall>i. Suc i < length [0, 1, 4 :: real] \<longrightarrow>
          (\<bar>[0, 0, 2 :: real] ! Suc i - [0, 0, 2] ! i\<bar> \<le> eps \<longrightarrow>
              q i = ([0, 1, 4] ! Suc i - [0, 1, 4] ! i) / eps)
        \<and> (\<bar>[0, 0, 2 :: real] ! Suc i - [0, 0, 2] ! i\<bar> > eps \<longrightarrow>
              q i = ([0, 1, 4] ! Suc i - [0, 1, 4] ! i) / ([0, 0, 2] ! Suc i - [0, 0, 2] ! i))"
    by blast
  have q0: "q 0 = 10 ^ 12" using q [rule_format, of 0] by (simp add: eps_def)
  have q1: "q 1 = 3 / 2" using q [rule_format, of 1] by (simp add: eps_def)
  have "df ! 0 = 10 ^ 12" using d0 q0 by simp
  moreover have "df ! 2 = 3 / 2" using d2 q1 by (simp add: numeral_2_eq_2)
  moreover have "df ! 1 = (10 ^ 12 + 3 / 2) / 2" using mid [rule_format, of 1] q0 q1 by simp
  ultimately show ?thesis using df h by blast
qed

text \<open>
  In exact arithmetic a linear signal \<open>f = m * x + c\<close> over two or more samples whose
  consecutive spacings all exceed \<open>1e-12\<close> in absolute value is differentiated to \<open>m\<close>
  at every index.  In \<^verbatim>\<open>float64\<close> every difference and quotient is rounded, so the
  routine returns \<open>m\<close> only up to rounding; rounding is outside this model.
\<close>

lemma safe_diff_linear:
  assumes "2 \<le> length x" "\<forall>i. Suc i < length x \<longrightarrow> \<bar>x ! Suc i - x ! i\<bar> > eps"
  shows "safe_diff (map (\<lambda>v. m * v + c) x) x = Inr (replicate (length x) m)"
proof -
  define f where "f = map (\<lambda>v. m * v + c) x"
  have lf: "length f = length x" by (simp add: f_def)
  have len: "2 \<le> length f" "length f \<le> length x" using assms lf by simp_all
  have quot: "(f ! Suc i - f ! i) / clamp_dx (x ! Suc i - x ! i) = m" if "Suc i < length x" for i
  proof -
    have big: "\<bar>x ! Suc i - x ! i\<bar> > eps" using assms(2) that by blast
    then have nz: "x ! Suc i - x ! i \<noteq> 0" using eps_pos by auto
    have "f ! Suc i - f ! i = m * (x ! Suc i - x ! i)"
      using that by (simp add: f_def algebra_simps)
    then show ?thesis using big nz by (simp add: clamp_dx_def)
  qed
  from safe_diff_ok [OF len] obtain df where df: "safe_diff f x = Inr df" "length df = length f"
    and d0: "df ! 0 = (f ! 1 - f ! 0) / clamp_dx (x ! 1 - x ! 0)"
    and dl: "df ! (length f - 1) =
       (f ! (length f - 1) - f ! (length f - 2)) / clamp_dx (x ! (length x - 1) - x ! (length x - 2))"
    and di: "\<And>i. 0 < i \<Longrightarrow> i < length f - 1 \<Longrightarrow>
       df ! i = ((f ! i - f ! (i - 1)) / clamp_dx (x ! i - x ! (i - 1))
                + (f ! (i + 1) - f ! i) / clamp_dx (x ! (i + 1) - x ! i)) / 2"
    by blast
  have "df ! i = m" if i: "i < length x" for i
  proof -
    consider "i = 0" | "i = length x - 1" "i \<noteq> 0" | "0 < i" "i < length x - 1"
      using i by linarith
    then show ?thesis
    proof cases
      case 1
      then show ?thesis using d0 quot [of 0] assms(1) by simp
    next
      case 2
      have "Suc (length x - 2) = length x - 1" using assms(1) by simp
      then show ?thesis using 2 dl lf quot [of "length x - 2"] assms(1) by simp
    next
      case 3
      then have "Suc (i - 1) = i" "Suc i < length x" by auto
      then show ?thesis using 3 di [of i] lf quot [of "i - 1"] quot [of i] by simp
    qed
  qed
  then have "df = replicate (length x) m"
    using df(2) lf by (intro nth_equalityI) simp_all
  then show ?thesis using df(1) by (simp add: f_def)
qed

section \<open>Properties of the reductions\<close>

lemma argmax_loop_first_max:
  "vs = drop i a \<Longrightarrow> bi < i \<Longrightarrow> i \<le> length a \<Longrightarrow> a ! bi = best \<Longrightarrow>
   (\<forall>j<i. a ! j \<le> best) \<Longrightarrow> (\<forall>j<bi. a ! j < best) \<Longrightarrow>
   argmax_loop vs i bi best < length a
   \<and> (\<forall>j<length a. a ! j \<le> a ! argmax_loop vs i bi best)
   \<and> (\<forall>j<argmax_loop vs i bi best. a ! j < a ! argmax_loop vs i bi best)"
proof (induction vs arbitrary: i bi best)
  case Nil
  then have "i = length a" by simp
  with Nil show ?case by simp
next
  case (Cons v vs)
  from Cons.prems(1) have i: "i < length a"
    by (metis drop_all list.distinct(1) not_le)
  then have v: "v = a ! i" and vs: "vs = drop (Suc i) a"
    using Cons.prems(1) by (simp_all add: Cons_nth_drop_Suc [symmetric])
  show ?case
  proof (cases "v > best")
    case True
    have "\<forall>j<Suc i. a ! j \<le> v"
      using Cons.prems(5) True v by (auto simp: less_Suc_eq intro: less_imp_le order_trans)
    moreover have "\<forall>j<i. a ! j < v"
      using Cons.prems(5) True by (auto intro: le_less_trans)
    ultimately show ?thesis
      using Cons.IH [of "Suc i" i v] vs i v True by simp
  next
    case False
    have "\<forall>j<Suc i. a ! j \<le> best"
      using Cons.prems(5) False v by (auto simp: less_Suc_eq)
    then show ?thesis
      using Cons.IH [of "Suc i" bi best] vs i False Cons.prems(2,4,6) by simp
  qed
qed

lemma argmax_first_max:
  assumes "a \<noteq> []"
  shows "\<exists>k. argmax a = Inr k \<and> k < length a
     \<and> (\<forall>j<length a. a ! j \<le> a ! k) \<and> (\<forall>j<k. a ! j < a ! k)"
proof -
  obtain v vs where a: "a = v # vs" using assms by (cases a) auto
  have "argmax_loop vs 1 0 v < length a
   \<and> (\<forall>j<length a. a ! j \<le> a ! argmax_loop vs 1 0 v)
   \<and> (\<forall>j<argmax_loop vs 1 0 v. a ! j < a ! argmax_loop vs 1 0 v)"
    by (rule argmax_loop_first_max) (simp_all add: a)
  then show ?thesis by (simp add: argmax_def a)
qed

lemma argmin_loop_uminus:
  "argmin_loop vs i bi best = argmax_loop (map uminus vs) i bi (- best)"
  by (induction vs arbitrary: i bi best) auto

lemma argmin_uminus: "argmin a = Inr k \<longleftrightarrow> argmax (map uminus a) = Inr k"
  by (cases a) (simp_all add: argmin_def argmax_def argmin_loop_uminus)

lemma argmin_first_min:
  assumes "a \<noteq> []"
  shows "\<exists>k. argmin a = Inr k \<and> k < length a
     \<and> (\<forall>j<length a. a ! k \<le> a ! j) \<and> (\<forall>j<k. a ! k < a ! j)"
proof -
  from argmax_first_max [of "map uminus a"] assms obtain k where
    k: "argmax (map uminus a) = Inr k" "k < length a"
    and mx: "\<forall>j<length a. map uminus a ! j \<le> map uminus a ! k"
    and fst: "\<forall>j<k. map uminus a ! j < map uminus a ! k"
    by auto
  have "\<forall>j<length a. a ! k \<le> a ! j" using mx k(2) by auto
  moreover have "\<forall>j<k. a ! k < a ! j" using fst k(2) by auto
  ultimately show ?thesis using k by (auto simp: argmin_uminus)
qed

lemma amax_Max: "a \<noteq> [] \<Longrightarrow> amax a = Inr (Max (set a))"
  by (cases a) (simp_all add: amax_def Max.set_eq_fold [symmetric])

lemma amin_Min: "a \<noteq> [] \<Longrightarrow> amin a = Inr (Min (set a))"
  by (cases a) (simp_all add: amin_def Min.set_eq_fold [symmetric])

section \<open>Properties of validation and of the constructor\<close>

lemma one_axis: "ndim a = 1 \<Longrightarrow> wf_ndarray a \<Longrightarrow> shape a = [length (data a)]"
  by (cases "shape a") (auto simp: ndim_def wf_ndarray_def)

lemma validate_Inr:
  assumes "wf_ndarray x" "wf_ndarray y" "validate x y = Inr ()"
  shows "length (data x) = length (data y)" "data x \<noteq> []" "data y \<noteq> []"
    "shape x = [length (data x)]" "shape y = [length (data y)]"
    "\<forall>v \<in> set (data x) \<union> set (data y). \<exists>r. v = Fin r"
proof -
  from assms(3) have d: "ndim x = 1" "ndim y = 1"
    and e: "hd (shape x) = hd (shape y)"
    and s: "size_arr x \<noteq> 0" "size_arr y \<noteq> 0"
    and n: "\<not> any_arr isnan x" "\<not> any_arr isnan y"
    and i: "\<not> any_arr isinf x" "\<not> any_arr isinf y"
    by (auto simp: validate_def split: if_splits)
  show sx: "shape x = [length (data x)]" and sy: "shape y = [length (data y)]"
    using d assms(1,2) by (simp_all add: one_axis)
  show "length (data x) = length (data y)" using e sx sy by simp
  show "data x \<noteq> []" using s(1) sx by (auto simp: size_arr_def)
  show "data y \<noteq> []" using s(2) sy by (auto simp: size_arr_def)
  show "\<forall>v \<in> set (data x) \<union> set (data y). \<exists>r. v = Fin r"
  proof
    fix v assume "v \<in> set (data x) \<union> set (data y)"
    then have "\<not> isnan v" "\<not> isinf v"
      using n i by (auto simp: any_arr_def list_ex_iff)
    then show "\<exists>r. v = Fin r" by (cases v) (auto simp: isnan_def isinf_def)
  qed
qed

lemma safe_diff_total:
  assumes "length f \<le> length x"
  shows "\<exists>df. safe_diff f x = Inr df \<and> length df = length f"
proof (cases "length f < 2")
  case True
  then show ?thesis by (simp add: safe_diff_short)
next
  case False
  then have "2 \<le> length f" by simp
  from safe_diff_ok [OF this assms] show ?thesis by blast
qed

lemma compute_gm_ok:
  assumes "length (Sequence.raw cur) = length (Sequence.raw vg)"
    "length (Sequence.forward cur) = length (Sequence.forward vg)"
    "length (Sequence.reverse cur) = length (Sequence.reverse vg)"
  shows "\<exists>r fw rv. safe_diff (Sequence.raw cur) (Sequence.raw vg) = Inr r
     \<and> safe_diff (Sequence.forward cur) (Sequence.forward vg) = Inr fw
     \<and> safe_diff (Sequence.reverse cur) (Sequence.reverse vg) = Inr rv
     \<and> length r = length (Sequence.raw cur)
     \<and> length fw = length (Sequence.forward cur)
     \<and> length rv = length (Sequence.reverse cur)
     \<and> compute_gm vg cur = Inr \<lparr>Sequence.raw = r, Sequence.forward = fw, Sequence.reverse = rv\<rparr>"
proof -
  obtain r where r: "safe_diff (Sequence.raw cur) (Sequence.raw vg) = Inr r"
    "length r = length (Sequence.raw cur)"
    using safe_diff_total [of "Sequence.raw cur" "Sequence.raw vg"] assms(1) by auto
  obtain fw where fw: "safe_diff (Sequence.forward cur) (Sequence.forward vg) = Inr fw"
    "length fw = length (Sequence.forward cur)"
    using safe_diff_total [of "Sequence.forward cur" "Sequence.forward vg"] assms(2) by auto
  obtain rv where rv: "safe_diff (Sequence.reverse cur) (Sequence.reverse vg) = Inr rv"
    "length rv = length (Sequence.reverse cur)"
    using safe_diff_total [of "Sequence.reverse cur" "Sequence.reverse vg"] assms(3) by auto
  show ?thesis using r fw rv by (simp add: compute_gm_def bind_err_def)
qed

lemma compute_gm_max_ok:
  assumes "Sequence.raw g \<noteq> []" "Sequence.forward g \<noteq> []" "Sequence.reverse g \<noteq> []"
    "argmax (Sequence.raw vg) = Inr k"
  shows "\<exists>i. argmax (Sequence.raw g) = Inr i
     \<and> compute_gm_max vg g = Inr \<lparr>Point.raw = Max (set (Sequence.raw g)), where' = where_of i k,
          Point.forward = Some (Max (set (Sequence.forward g))),
          Point.reverse = Some (Max (set (Sequence.reverse g)))\<rparr>"
proof -
  obtain i where "argmax (Sequence.raw g) = Inr i"
    using argmax_first_max [OF assms(1)] by blast
  then show ?thesis
    using assms by (simp add: compute_gm_max_def bind_err_def amax_Max)
qed

lemma compute_I_max_ok:
  assumes "Sequence.raw cur \<noteq> []" "Sequence.forward cur \<noteq> []" "Sequence.reverse cur \<noteq> []"
    "argmax (Sequence.raw vg) = Inr k"
  shows "\<exists>i. argmax (abs_arr (Sequence.raw cur)) = Inr i
     \<and> compute_I_max vg cur = Inr \<lparr>Point.raw = Max (set (abs_arr (Sequence.raw cur))),
          where' = where_of i k,
          Point.forward = Some (Max (set (abs_arr (Sequence.forward cur)))),
          Point.reverse = Some (Max (set (abs_arr (Sequence.reverse cur))))\<rparr>"
proof -
  have ne: "abs_arr (Sequence.raw cur) \<noteq> []" "abs_arr (Sequence.forward cur) \<noteq> []"
    "abs_arr (Sequence.reverse cur) \<noteq> []"
    using assms by (simp_all add: abs_arr_def)
  obtain i where "argmax (abs_arr (Sequence.raw cur)) = Inr i"
    using argmax_first_max [OF ne(1)] by blast
  then show ?thesis
    using ne assms(4) by (simp add: compute_I_max_def bind_err_def amax_Max)
qed

lemma compute_I_min_ok:
  assumes "Sequence.raw cur \<noteq> []" "Sequence.forward cur \<noteq> []" "Sequence.reverse cur \<noteq> []"
    "argmax (Sequence.raw vg) = Inr k"
  shows "\<exists>i. argmin (abs_arr (Sequence.raw cur)) = Inr i
     \<and> compute_I_min vg cur = Inr \<lparr>Point.raw = Min (set (abs_arr (Sequence.raw cur))),
          where' = where_of i k,
          Point.forward = Some (Min (set (abs_arr (Sequence.forward cur)))),
          Point.reverse = Some (Min (set (abs_arr (Sequence.reverse cur))))\<rparr>"
proof -
  have ne: "abs_arr (Sequence.raw cur) \<noteq> []" "abs_arr (Sequence.forward cur) \<noteq> []"
    "abs_arr (Sequence.reverse cur) \<noteq> []"
    using assms by (simp_all add: abs_arr_def)
  obtain i where "argmin (abs_arr (Sequence.raw cur)) = Inr i"
    using argmin_first_min [OF ne(1)] by blast
  then show ?thesis
    using ne assms(4) by (simp add: compute_I_min_def bind_err_def amin_Min)
qed

text \<open>One leg of \<^verbatim>\<open>_compute_Von\<close>: the log-slope curve, the selected index and the
  entry of the leg of \<open>Vg\<close> read at it.\<close>

lemma slope_index_ok:
  "d \<noteq> [] \<Longrightarrow> \<exists>i. slope_index device_type d = Inr i \<and> i < length d"
  using argmax_first_max [of d] argmin_first_min [of d]
  by (auto simp: slope_index_def)

lemma Von_leg_ok:
  assumes "length b = length a" "a \<noteq> []"
  shows "\<exists>s i. safe_diff (log_Id b) a = Inr s \<and> length s = length a
     \<and> slope_index device_type s = Inr i \<and> i < length a
     \<and> getitem a (int i) = Inr (a ! i) \<and> item_or_None a i = Inr (Some (a ! i))"
proof -
  have "length (log_Id b) \<le> length a" using assms by (simp add: log_Id_def abs_arr_def)
  from safe_diff_total [OF this] obtain s where
    s: "safe_diff (log_Id b) a = Inr s" "length s = length a"
    using assms by (auto simp: log_Id_def abs_arr_def)
  then have "s \<noteq> []" using assms(2) by auto
  from slope_index_ok [OF this] obtain i where
    i: "slope_index device_type s = Inr i" "i < length a" using s(2) by auto
  then show ?thesis
    using s assms(2) by (auto simp: item_or_None_def bind_err_def getitem_nat)
qed

lemma compute_Von_ok:
  assumes "length (Sequence.raw cur) = length (Sequence.raw vg)"
    "length (Sequence.forward cur) = length (Sequence.forward vg)"
    "length (Sequence.reverse cur) = length (Sequence.reverse vg)"
    "Sequence.raw vg \<noteq> []" "Sequence.forward vg \<noteq> []" "Sequence.reverse vg \<noteq> []"
    "argmax (Sequence.raw vg) = Inr k"
  shows "\<exists>s i sf jf sr jr.
       safe_diff (log_Id (Sequence.raw cur)) (Sequence.raw vg) = Inr s
     \<and> slope_index device_type s = Inr i \<and> i < length (Sequence.raw vg)
     \<and> safe_diff (log_Id (Sequence.forward cur)) (Sequence.forward vg) = Inr sf
     \<and> slope_index device_type sf = Inr jf \<and> jf < length (Sequence.forward vg)
     \<and> safe_diff (log_Id (Sequence.reverse cur)) (Sequence.reverse vg) = Inr sr
     \<and> slope_index device_type sr = Inr jr \<and> jr < length (Sequence.reverse vg)
     \<and> compute_Von vg cur device_type =
         Inr \<lparr>Point.raw = Sequence.raw vg ! i, where' = where_of i k,
              Point.forward = Some (Sequence.forward vg ! jf),
              Point.reverse = Some (Sequence.reverse vg ! jr)\<rparr>"
proof -
  from Von_leg_ok [OF assms(1,4), of device_type] obtain s i where
    r: "safe_diff (log_Id (Sequence.raw cur)) (Sequence.raw vg) = Inr s"
       "slope_index device_type s = Inr i" "i < length (Sequence.raw vg)"
       "getitem (Sequence.raw vg) (int i) = Inr (Sequence.raw vg ! i)"
    by blast
  from Von_leg_ok [OF assms(2,5), of device_type] obtain sf jf where
    f: "safe_diff (log_Id (Sequence.forward cur)) (Sequence.forward vg) = Inr sf"
       "slope_index device_type sf = Inr jf" "jf < length (Sequence.forward vg)"
       "item_or_None (Sequence.forward vg) jf = Inr (Some (Sequence.forward vg ! jf))"
    by blast
  from Von_leg_ok [OF assms(3,6), of device_type] obtain sr jr where
    v: "safe_diff (log_Id (Sequence.reverse cur)) (Sequence.reverse vg) = Inr sr"
       "slope_index device_type sr = Inr jr" "jr < length (Sequence.reverse vg)"
       "item_or_None (Sequence.reverse vg) jr = Inr (Some (Sequence.reverse vg ! jr))"
    by blast
  have "compute_Von vg cur device_type =
         Inr \<lparr>Point.raw = Sequence.raw vg ! i, where' = where_of i k,
              Point.forward = Some (Sequence.forward vg ! jf),
              Point.reverse = Some (Sequence.reverse vg ! jr)\<rparr>"
    using r f v assms(7) by (simp add: compute_Von_def bind_err_def)
  then show ?thesis using r f v by blast
qed

lemma split_at_simps:
  "Sequence.raw (split_at k a) = a"
  "Sequence.forward (split_at k a) = take (k + 1) a"
  "Sequence.reverse (split_at k a) = drop k a"
  by (simp_all add: split_at_def)

lemma Transfer_init_ok:
  assumes "wf_ndarray x" "wf_ndarray y" "validate x y = Inr ()"
  shows "\<exists>k t. argmax (map fin (data x)) = Inr k \<and> k < length (data x)
     \<and> length (data y) = length (data x)
     \<and> Transfer_init x y device_type = Inr t
     \<and> Vg t = split_at k (map fin (data x)) \<and> I t = split_at k (map fin (data y))
     \<and> compute_gm (Vg t) (I t) = Inr (gm t)
     \<and> compute_gm_max (Vg t) (gm t) = Inr (gm_max t)
     \<and> compute_I_max (Vg t) (I t) = Inr (I_max t)
     \<and> compute_I_min (Vg t) (I t) = Inr (I_min t)
     \<and> compute_Von (Vg t) (I t) device_type = Inr (Von t)"
proof -
  define xs where "xs = map fin (data x)"
  define ys where "ys = map fin (data y)"
  have len: "length ys = length xs" and ne: "xs \<noteq> []"
    using validate_Inr(1,2) [OF assms] by (simp_all add: xs_def ys_def)
  from argmax_first_max [OF ne] obtain k where k: "argmax xs = Inr k" "k < length xs"
    by blast
  define vg where "vg = split_at k xs"
  define cur where "cur = split_at k ys"
  have l: "length (Sequence.raw cur) = length (Sequence.raw vg)"
    "length (Sequence.forward cur) = length (Sequence.forward vg)"
    "length (Sequence.reverse cur) = length (Sequence.reverse vg)"
    using len by (simp_all add: vg_def cur_def split_at_simps)
  have nv: "Sequence.raw vg \<noteq> []" "Sequence.forward vg \<noteq> []" "Sequence.reverse vg \<noteq> []"
    using ne k(2) by (auto simp: vg_def split_at_simps)
  have nc: "Sequence.raw cur \<noteq> []" "Sequence.forward cur \<noteq> []" "Sequence.reverse cur \<noteq> []"
    using nv l by (metis length_0_conv)+
  have kv: "argmax (Sequence.raw vg) = Inr k" using k(1) by (simp add: vg_def split_at_simps)
  from compute_gm_ok [OF l] obtain g where g: "compute_gm vg cur = Inr g"
    and lg: "length (Sequence.raw g) = length (Sequence.raw cur)"
      "length (Sequence.forward g) = length (Sequence.forward cur)"
      "length (Sequence.reverse g) = length (Sequence.reverse cur)"
    by force
  have ng: "Sequence.raw g \<noteq> []" "Sequence.forward g \<noteq> []" "Sequence.reverse g \<noteq> []"
    using nc lg by (metis length_0_conv)+
  from compute_gm_max_ok [OF ng kv] obtain gmx where gmx: "compute_gm_max vg g = Inr gmx"
    by blast
  from compute_I_max_ok [OF nc kv] obtain imx where imx: "compute_I_max vg cur = Inr imx"
    by blast
  from compute_I_min_ok [OF nc kv] obtain imn where imn: "compute_I_min vg cur = Inr imn"
    by blast
  from compute_Von_ok [OF l nv kv, of device_type] obtain von where
    von: "compute_Von vg cur device_type = Inr von"
    by blast
  have "Transfer_init x y device_type =
      Inr \<lparr>Vg = vg, I = cur, gm = g, gm_max = gmx, I_max = imx, I_min = imn, Von = von\<rparr>"
    using assms(3) k(1) g gmx imx imn von
    by (simp add: Transfer_init_def bind_err_def Let_def xs_def [symmetric] ys_def [symmetric]
        vg_def [symmetric] cur_def [symmetric])
  then show ?thesis
    using k len g gmx imx imn von
    by (simp add: xs_def [symmetric] ys_def [symmetric] vg_def [symmetric] cur_def [symmetric])
       (simp add: xs_def ys_def)
qed

lemma demo_valid:
  "wf_ndarray demo_x" "wf_ndarray demo_y" "validate demo_x demo_y = Inr ()"
  by (simp_all add: demo_x_def demo_y_def wf_ndarray_def validate_def ndim_def size_arr_def
      any_arr_def isnan_def isinf_def)

lemma demo_data:
  "map fin (data demo_x) = [0, 1, 2, 3, 2, 1, 0]" "map fin (data demo_y) = [0, 1, 4, 6, 8, 23, 6]"
  by (simp_all add: demo_x_def demo_y_def)

lemma demo_argmax: "argmax (map fin (data demo_x)) = Inr 3"
  by (simp add: demo_data argmax_def)

section \<open>Claims about the split of the sweep\<close>

text \<open>
  Claim C3.  For a validated input let \<open>k\<close> be the lowest index at which \<open>Vg\<close> is
  maximal.  In the sequences \<open>Vg\<close> and \<open>I\<close> of the constructed object the forward leg
  is \<open>raw[0..k]\<close> and the reverse leg is \<open>raw[k..end]\<close>, both ends included and with
  the same \<open>k\<close>; the legs share the one sample at index \<open>k\<close>, and their lengths add up
  to the length of \<open>raw\<close> plus one (the latter also in the sequence \<open>gm\<close>).
\<close>

theorem legs_split_at_first_maximum:
  assumes "wf_ndarray x" "wf_ndarray y" "validate x y = Inr ()"
  shows "\<exists>k t. Transfer_init x y device_type = Inr t
     \<and> k < length (data x)
     \<and> (\<forall>j<length (data x). fin (data x ! j) \<le> fin (data x ! k))
     \<and> (\<forall>j<k. fin (data x ! j) < fin (data x ! k))
     \<and> Sequence.raw (Vg t) = map fin (data x)
     \<and> Sequence.raw (I t) = map fin (data y)
     \<and> (\<forall>s \<in> {Vg t, I t}.
           length (Sequence.forward s) = k + 1
         \<and> (\<forall>i\<le>k. Sequence.forward s ! i = Sequence.raw s ! i)
         \<and> length (Sequence.reverse s) = length (Sequence.raw s) - k
         \<and> (\<forall>i<length (Sequence.raw s) - k. Sequence.reverse s ! i = Sequence.raw s ! (k + i))
         \<and> last (Sequence.forward s) = Sequence.raw s ! k
         \<and> hd (Sequence.reverse s) = Sequence.raw s ! k
         \<and> {0..k} \<inter> {k..<length (Sequence.raw s)} = {k})
     \<and> (\<forall>s \<in> {Vg t, I t, gm t}.
           length (Sequence.forward s) + length (Sequence.reverse s)
             = length (Sequence.raw s) + 1)"
proof -
  from Transfer_init_ok [OF assms, of device_type] obtain k t where
    k: "argmax (map fin (data x)) = Inr k" "k < length (data x)"
    and len: "length (data y) = length (data x)"
    and t: "Transfer_init x y device_type = Inr t"
    and vg: "Vg t = split_at k (map fin (data x))"
    and cur: "I t = split_at k (map fin (data y))"
    and g: "compute_gm (Vg t) (I t) = Inr (gm t)"
    by blast
  have ne: "map fin (data x) \<noteq> []" using k(2) by auto
  from argmax_first_max [OF ne] k(1) have
    mx: "\<forall>j<length (data x). fin (data x ! j) \<le> fin (data x ! k)"
    and fst: "\<forall>j<k. fin (data x ! j) < fin (data x ! k)"
    using k(2) by auto
  have leg: "length (Sequence.forward (split_at k a)) = k + 1
         \<and> (\<forall>i\<le>k. Sequence.forward (split_at k a) ! i = Sequence.raw (split_at k a) ! i)
         \<and> length (Sequence.reverse (split_at k a)) = length (Sequence.raw (split_at k a)) - k
         \<and> (\<forall>i<length (Sequence.raw (split_at k a)) - k.
               Sequence.reverse (split_at k a) ! i = Sequence.raw (split_at k a) ! (k + i))
         \<and> last (Sequence.forward (split_at k a)) = Sequence.raw (split_at k a) ! k
         \<and> hd (Sequence.reverse (split_at k a)) = Sequence.raw (split_at k a) ! k
         \<and> {0..k} \<inter> {k..<length (Sequence.raw (split_at k a))} = {k}
         \<and> length (Sequence.forward (split_at k a)) + length (Sequence.reverse (split_at k a))
             = length (Sequence.raw (split_at k a)) + 1"
    if "k < length a" for a :: "real list"
  proof -
    have lt: "length (take (k + 1) a) = k + 1" using that by auto
    then have "take (k + 1) a \<noteq> []" by auto
    then have "last (take (k + 1) a) = take (k + 1) a ! k"
      using lt by (simp add: last_conv_nth del: length_take)
    then have la: "last (take (k + 1) a) = a ! k" by simp
    have hd: "hd (drop k a) = a ! k" using that by (simp add: hd_drop_conv_nth)
    have ov: "{0..k} \<inter> {k..<length a} = {k}" using that by auto
    have fw: "\<forall>i\<le>k. take (k + 1) a ! i = a ! i" by simp
    have rv: "\<forall>i<length a - k. drop k a ! i = a ! (k + i)" using that by simp
    have sum: "length (take (k + 1) a) + length (drop k a) = length a + 1"
      using lt that by (simp del: length_take)
    show ?thesis
      unfolding split_at_simps using lt la hd ov fw rv sum by (simp del: length_take)
  qed
  have lx: "k < length (map fin (data x))" and ly: "k < length (map fin (data y))"
    using k(2) len by simp_all
  from compute_gm_ok [of "I t" "Vg t"] g have
    "length (Sequence.raw (gm t)) = length (Sequence.raw (I t))"
    "length (Sequence.forward (gm t)) = length (Sequence.forward (I t))"
    "length (Sequence.reverse (gm t)) = length (Sequence.reverse (I t))"
    using len by (auto simp: vg cur split_at_simps)
  then have gl: "length (Sequence.forward (gm t)) + length (Sequence.reverse (gm t))
             = length (Sequence.raw (gm t)) + 1"
    using leg [OF ly] cur by simp
  show ?thesis
    using t k(2) mx fst leg [OF lx] leg [OF ly] gl
    by (intro exI [of _ k] exI [of _ t]) (simp add: vg cur split_at_simps)
qed


theorem legs_split_at_first_maximum_witness:
  "wf_ndarray demo_x \<and> wf_ndarray demo_y \<and> validate demo_x demo_y = Inr ()
   \<and> (\<exists>t. Transfer_init demo_x demo_y ''N'' = Inr t
        \<and> Sequence.forward (Vg t) = [0, 1, 2, 3] \<and> Sequence.reverse (Vg t) = [3, 2, 1, 0]
        \<and> Sequence.forward (I t) = [0, 1, 4, 6] \<and> Sequence.reverse (I t) = [6, 8, 23, 6])"
proof -
  from legs_split_at_first_maximum [OF demo_valid, of "''N''"] obtain k t where
    t: "Transfer_init demo_x demo_y ''N'' = Inr t"
    and k: "k < length (data demo_x)"
    and mx: "\<forall>j<length (data demo_x). fin (data demo_x ! j) \<le> fin (data demo_x ! k)"
    and raw: "Sequence.raw (Vg t) = map fin (data demo_x)"
      "Sequence.raw (I t) = map fin (data demo_y)"
    and legs: "\<forall>s \<in> {Vg t, I t}.
           length (Sequence.forward s) = k + 1
         \<and> (\<forall>i\<le>k. Sequence.forward s ! i = Sequence.raw s ! i)
         \<and> length (Sequence.reverse s) = length (Sequence.raw s) - k
         \<and> (\<forall>i<length (Sequence.raw s) - k. Sequence.reverse s ! i = Sequence.raw s ! (k + i))
         \<and> last (Sequence.forward s) = Sequence.raw s ! k
         \<and> hd (Sequence.reverse s) = Sequence.raw s ! k
         \<and> {0..k} \<inter> {k..<length (Sequence.raw s)} = {k}"
    by blast
  have "k < 7" using k by (simp add: demo_x_def)
  then consider "k = 0" | "k = 1" | "k = 2" | "k = 3" | "k = 4" | "k = 5" | "k = 6"
    by linarith
  then have k3: "k = 3"
    using mx [rule_format, of 3] by cases (simp_all add: demo_x_def)
  have nth: "length a = 4 \<Longrightarrow> a ! 0 = b0 \<Longrightarrow> a ! 1 = b1 \<Longrightarrow> a ! 2 = b2 \<Longrightarrow> a ! 3 = b3
      \<Longrightarrow> a = [b0, b1, b2, b3]" for a :: "real list" and b0 b1 b2 b3
    by (intro nth_equalityI) (auto simp: less_Suc_eq numeral_eq_Suc)
  from legs have
    v: "length (Sequence.forward (Vg t)) = k + 1"
       "\<forall>i\<le>k. Sequence.forward (Vg t) ! i = Sequence.raw (Vg t) ! i"
       "length (Sequence.reverse (Vg t)) = length (Sequence.raw (Vg t)) - k"
       "\<forall>i<length (Sequence.raw (Vg t)) - k. Sequence.reverse (Vg t) ! i = Sequence.raw (Vg t) ! (k + i)"
    and c: "length (Sequence.forward (I t)) = k + 1"
       "\<forall>i\<le>k. Sequence.forward (I t) ! i = Sequence.raw (I t) ! i"
       "length (Sequence.reverse (I t)) = length (Sequence.raw (I t)) - k"
       "\<forall>i<length (Sequence.raw (I t)) - k. Sequence.reverse (I t) ! i = Sequence.raw (I t) ! (k + i)"
    by simp_all
  have "Sequence.forward (Vg t) = [0, 1, 2, 3]"
    using v(1) v(2) [rule_format, of 0] v(2) [rule_format, of 1] v(2) [rule_format, of 2]
      v(2) [rule_format, of 3]
    by (intro nth) (simp_all add: k3 raw demo_data)
  moreover have "Sequence.reverse (Vg t) = [3, 2, 1, 0]"
    using v(3) v(4) [rule_format, of 0] v(4) [rule_format, of 1] v(4) [rule_format, of 2]
      v(4) [rule_format, of 3]
    by (intro nth) (simp_all add: k3 raw demo_data)
  moreover have "Sequence.forward (I t) = [0, 1, 4, 6]"
    using c(1) c(2) [rule_format, of 0] c(2) [rule_format, of 1] c(2) [rule_format, of 2]
      c(2) [rule_format, of 3]
    by (intro nth) (simp_all add: k3 raw demo_data)
  moreover have "Sequence.reverse (I t) = [6, 8, 23, 6]"
    using c(3) c(4) [rule_format, of 0] c(4) [rule_format, of 1] c(4) [rule_format, of 2]
      c(4) [rule_format, of 3]
    by (intro nth) (simp_all add: k3 raw demo_data)
  ultimately show ?thesis using t demo_valid by blast
qed

lemma split_at_turning_sample:
  assumes "k < length a"
  shows "Sequence.forward (split_at k a) \<noteq> []" "Sequence.reverse (split_at k a) \<noteq> []"
    "last (Sequence.forward (split_at k a)) = a ! k" "hd (Sequence.reverse (split_at k a)) = a ! k"
proof -
  have lt: "length (take (k + 1) a) = k + 1" using assms by auto
  then show ne: "Sequence.forward (split_at k a) \<noteq> []" by (auto simp: split_at_simps)
  show "Sequence.reverse (split_at k a) \<noteq> []" using assms by (simp add: split_at_simps)
  have "last (take (k + 1) a) = take (k + 1) a ! k"
    using ne lt by (simp add: split_at_simps last_conv_nth del: length_take)
  then show "last (Sequence.forward (split_at k a)) = a ! k" by (simp add: split_at_simps)
  show "hd (Sequence.reverse (split_at k a)) = a ! k"
    using assms by (simp add: split_at_simps hd_drop_conv_nth)
qed

lemma item_or_None_nonempty: "a \<noteq> [] \<Longrightarrow> item_or_None a j \<noteq> Inr None"
  by (auto simp: item_or_None_def bind_err_def split: sum.splits)

text \<open>
  Claim C10.  For a validated input both legs of \<open>Vg\<close> and of \<open>I\<close> hold at least one
  sample, the turning sample \<open>raw[k]\<close> (the last of the forward leg and the first of the
  reverse leg).  So the forward and reverse fields of \<open>Von\<close> are numbers, and the branch
  of \<^verbatim>\<open>_compute_Von\<close> that stores \<^verbatim>\<open>None\<close> for a leg of length zero is never taken.
\<close>

theorem legs_nonempty_Von_numeric:
  assumes "wf_ndarray x" "wf_ndarray y" "validate x y = Inr ()"
  shows "\<exists>k t vf vr. Transfer_init x y device_type = Inr t
     \<and> k < length (data x)
     \<and> Sequence.forward (Vg t) \<noteq> [] \<and> Sequence.reverse (Vg t) \<noteq> []
     \<and> Sequence.forward (I t) \<noteq> [] \<and> Sequence.reverse (I t) \<noteq> []
     \<and> last (Sequence.forward (Vg t)) = Sequence.raw (Vg t) ! k
     \<and> hd (Sequence.reverse (Vg t)) = Sequence.raw (Vg t) ! k
     \<and> last (Sequence.forward (I t)) = Sequence.raw (I t) ! k
     \<and> hd (Sequence.reverse (I t)) = Sequence.raw (I t) ! k
     \<and> Point.forward (Von t) = Some vf \<and> Point.reverse (Von t) = Some vr
     \<and> (\<forall>j. item_or_None (Sequence.forward (Vg t)) j \<noteq> Inr None)
     \<and> (\<forall>j. item_or_None (Sequence.reverse (Vg t)) j \<noteq> Inr None)"
proof -
  from Transfer_init_ok [OF assms, of device_type] obtain k t where
    k: "argmax (map fin (data x)) = Inr k" "k < length (data x)"
    and len: "length (data y) = length (data x)"
    and t: "Transfer_init x y device_type = Inr t"
    and vg: "Vg t = split_at k (map fin (data x))"
    and cur: "I t = split_at k (map fin (data y))"
    and von: "compute_Von (Vg t) (I t) device_type = Inr (Von t)"
    by blast
  have lx: "k < length (map fin (data x))" and ly: "k < length (map fin (data y))"
    using k(2) len by simp_all
  note sx = split_at_turning_sample [OF lx] and sy = split_at_turning_sample [OF ly]
  have l: "length (Sequence.raw (I t)) = length (Sequence.raw (Vg t))"
    "length (Sequence.forward (I t)) = length (Sequence.forward (Vg t))"
    "length (Sequence.reverse (I t)) = length (Sequence.reverse (Vg t))"
    using len by (simp_all add: vg cur split_at_simps)
  have nv: "Sequence.raw (Vg t) \<noteq> []" "Sequence.forward (Vg t) \<noteq> []"
    "Sequence.reverse (Vg t) \<noteq> []"
    using lx sx(1,2) by (auto simp: vg split_at_simps)
  have kv: "argmax (Sequence.raw (Vg t)) = Inr k" using k(1) by (simp add: vg split_at_simps)
  from compute_Von_ok [OF l nv kv, of device_type] von obtain vf vr where
    "Point.forward (Von t) = Some vf" "Point.reverse (Von t) = Some vr"
    by auto
  moreover have "\<forall>j. item_or_None (Sequence.forward (Vg t)) j \<noteq> Inr None"
    "\<forall>j. item_or_None (Sequence.reverse (Vg t)) j \<noteq> Inr None"
    using nv by (simp_all add: item_or_None_nonempty)
  ultimately show ?thesis
    using t k(2) sx sy nv
    by (intro exI [of _ k] exI [of _ t] exI [of _ vf] exI [of _ vr])
       (simp add: vg cur split_at_simps)
qed

theorem legs_nonempty_Von_numeric_witness:
  "wf_ndarray demo_x \<and> wf_ndarray demo_y \<and> validate demo_x demo_y = Inr ()
   \<and> (\<exists>t vf vr. Transfer_init demo_x demo_y ''N'' = Inr t
        \<and> Sequence.forward (Vg t) \<noteq> [] \<and> Sequence.reverse (Vg t) \<noteq> []
        \<and> Point.forward (Von t) = Some vf \<and> Point.reverse (Von t) = Some vr)"
  using demo_valid legs_nonempty_Von_numeric [OF demo_valid, of "''N''"] by blast

text \<open>
  Claim C7.  On arrays of equal length, the precondition of the routine, \<^verbatim>\<open>safe_diff\<close>
  returns an array of the length of \<open>f\<close>, whatever that length is; when \<open>f\<close> has fewer
  than two samples the array is filled with zeros and nothing is raised.  For a validated
  input the array \<open>gm.raw\<close> has the length of \<open>I.raw\<close>, the current that was passed in.
\<close>

theorem safe_diff_same_length:
  assumes "length x = length f"
  shows "(\<exists>df. safe_diff f x = Inr df \<and> length df = length f)
   \<and> (length f < 2 \<longrightarrow> safe_diff f x = Inr (replicate (length f) 0))
   \<and> (wf_ndarray a \<and> wf_ndarray b \<and> validate a b = Inr () \<longrightarrow>
        (\<exists>t. Transfer_init a b device_type = Inr t
           \<and> Sequence.raw (I t) = map fin (data b)
           \<and> length (Sequence.raw (gm t)) = length (Sequence.raw (I t))))"
proof (intro conjI impI)
  have "length f \<le> length x" using assms by simp
  then show "\<exists>df. safe_diff f x = Inr df \<and> length df = length f"
    by (rule safe_diff_total)
  show "safe_diff f x = Inr (replicate (length f) 0)" if "length f < 2"
    using that by (rule safe_diff_short)
  show "\<exists>t. Transfer_init a b device_type = Inr t
           \<and> Sequence.raw (I t) = map fin (data b)
           \<and> length (Sequence.raw (gm t)) = length (Sequence.raw (I t))"
    if v: "wf_ndarray a \<and> wf_ndarray b \<and> validate a b = Inr ()"
  proof -
    from v have h: "wf_ndarray a" "wf_ndarray b" "validate a b = Inr ()" by simp_all
    from Transfer_init_ok [OF h, of device_type] obtain k t where
      len: "length (data b) = length (data a)"
      and t: "Transfer_init a b device_type = Inr t"
      and vg: "Vg t = split_at k (map fin (data a))"
      and cur: "I t = split_at k (map fin (data b))"
      and g: "compute_gm (Vg t) (I t) = Inr (gm t)"
      by blast
    from compute_gm_ok [of "I t" "Vg t"] g have
      "length (Sequence.raw (gm t)) = length (Sequence.raw (I t))"
      using len by (auto simp: vg cur split_at_simps)
    then show ?thesis using t cur by (auto simp: split_at_simps)
  qed
qed

theorem safe_diff_same_length_witness:
  "length [1 :: real] = length [5 :: real] \<and> safe_diff [5] [1] = Inr [0]
   \<and> length [0, 1, 2 :: real] = length [0, 1, 4 :: real]
   \<and> (\<exists>df. safe_diff [0, 1, 4] [0, 1, 2] = Inr df \<and> length df = 3)
   \<and> wf_ndarray demo_x \<and> wf_ndarray demo_y \<and> validate demo_x demo_y = Inr ()
   \<and> (\<exists>t. Transfer_init demo_x demo_y ''N'' = Inr t
           \<and> length (Sequence.raw (I t)) = 7 \<and> length (Sequence.raw (gm t)) = 7)"
proof -
  have e1: "length [1 :: real] = length [5 :: real]"
    and e3: "length [0, 1, 2 :: real] = length [0, 1, 4 :: real]"
    by simp_all
  have "safe_diff [5] [1] = Inr [0]"
    using safe_diff_same_length [OF e1, of demo_x demo_y "''N''"] by simp
  moreover have "\<exists>df. safe_diff [0, 1, 4] [0, 1, 2] = Inr df \<and> length df = 3"
    using safe_diff_same_length [OF e3, of demo_x demo_y "''N''"] by (simp add: numeral_3_eq_3)
  moreover have "\<exists>t. Transfer_init demo_x demo_y ''N'' = Inr t
           \<and> length (Sequence.raw (I t)) = 7 \<and> length (Sequence.raw (gm t)) = 7"
  proof -
    from safe_diff_same_length [OF e3, of demo_x demo_y "''N''"] demo_valid obtain t where
      t: "Transfer_init demo_x demo_y ''N'' = Inr t"
      "Sequence.raw (I t) = map fin (data demo_y)"
      "length (Sequence.raw (gm t)) = length (Sequence.raw (I t))"
      by blast
    have "length (Sequence.raw (I t)) = 7" using t(2) by (simp add: demo_data)
    then show ?thesis using t by auto
  qed
  ultimately show ?thesis using e1 e3 demo_valid by blast
qed

lemma where_of_cases:
  "(i < k \<longrightarrow> where_of i k = ''forward'')
   \<and> (i = k \<longrightarrow> where_of i k = ''turning_point'')
   \<and> (i > k \<longrightarrow> where_of i k = ''reverse'')"
  by (simp add: where_of_def)

lemma where_of_zero:
  "where_of i 0 \<noteq> ''forward'' \<and> (i = 0 \<longrightarrow> where_of i 0 = ''turning_point'')
   \<and> (i > 0 \<longrightarrow> where_of i 0 = ''reverse'')"
  by (simp add: where_of_def)

section \<open>Claims about the located values\<close>

text \<open>
  Claim C5.  The tag \<^verbatim>\<open>where\<close> of each of the four points (peak transconductance,
  peak \<open>|I|\<close>, minimum \<open>|I|\<close>, \<open>Von\<close>) comes from comparing the index \<open>i\<close> of the
  extremum in the raw sequence with the turning index \<open>k\<close>: \<open>i < k\<close> gives
  \<open>forward\<close>, \<open>i = k\<close> gives \<open>turning_point\<close>, \<open>i > k\<close> gives \<open>reverse\<close>.  With
  \<open>k = 0\<close> the tag is \<open>turning_point\<close> for \<open>i = 0\<close>, \<open>reverse\<close> for a later index
  and never \<open>forward\<close>.
\<close>

theorem where_by_index_against_turning_index:
  assumes "wf_ndarray x" "wf_ndarray y" "validate x y = Inr ()"
  shows "\<exists>t k ig imx imn s iv. Transfer_init x y device_type = Inr t
     \<and> argmax (map fin (data x)) = Inr k
     \<and> argmax (Sequence.raw (gm t)) = Inr ig
     \<and> argmax (abs_arr (map fin (data y))) = Inr imx
     \<and> argmin (abs_arr (map fin (data y))) = Inr imn
     \<and> safe_diff (log_Id (map fin (data y))) (map fin (data x)) = Inr s
     \<and> slope_index device_type s = Inr iv
     \<and> (\<forall>(i, p) \<in> {(ig, gm_max t), (imx, I_max t), (imn, I_min t), (iv, Von t)}.
           (i < k \<longrightarrow> where' p = ''forward'')
         \<and> (i = k \<longrightarrow> where' p = ''turning_point'')
         \<and> (i > k \<longrightarrow> where' p = ''reverse'')
         \<and> (k = 0 \<longrightarrow> where' p \<noteq> ''forward''
               \<and> (i = 0 \<longrightarrow> where' p = ''turning_point'')
               \<and> (i > 0 \<longrightarrow> where' p = ''reverse'')))"
proof -
  from Transfer_init_ok [OF assms, of device_type] obtain k t where
    k: "argmax (map fin (data x)) = Inr k" "k < length (data x)"
    and len: "length (data y) = length (data x)"
    and t: "Transfer_init x y device_type = Inr t"
    and vg: "Vg t = split_at k (map fin (data x))"
    and cur: "I t = split_at k (map fin (data y))"
    and g: "compute_gm (Vg t) (I t) = Inr (gm t)"
    and gmx: "compute_gm_max (Vg t) (gm t) = Inr (gm_max t)"
    and imx: "compute_I_max (Vg t) (I t) = Inr (I_max t)"
    and imn: "compute_I_min (Vg t) (I t) = Inr (I_min t)"
    and von: "compute_Von (Vg t) (I t) device_type = Inr (Von t)"
    by blast
  have lx: "k < length (map fin (data x))" and ly: "k < length (map fin (data y))"
    using k(2) len by simp_all
  note sx = split_at_turning_sample [OF lx] and sy = split_at_turning_sample [OF ly]
  have l: "length (Sequence.raw (I t)) = length (Sequence.raw (Vg t))"
    "length (Sequence.forward (I t)) = length (Sequence.forward (Vg t))"
    "length (Sequence.reverse (I t)) = length (Sequence.reverse (Vg t))"
    using len by (simp_all add: vg cur split_at_simps)
  have nv: "Sequence.raw (Vg t) \<noteq> []" "Sequence.forward (Vg t) \<noteq> []"
    "Sequence.reverse (Vg t) \<noteq> []"
    using lx sx(1,2) by (auto simp: vg split_at_simps)
  have nc: "Sequence.raw (I t) \<noteq> []" "Sequence.forward (I t) \<noteq> []"
    "Sequence.reverse (I t) \<noteq> []"
    using ly sy(1,2) by (auto simp: cur split_at_simps)
  have kv: "argmax (Sequence.raw (Vg t)) = Inr k" using k(1) by (simp add: vg split_at_simps)
  from compute_gm_ok [OF l] g have ng: "Sequence.raw (gm t) \<noteq> []"
    "Sequence.forward (gm t) \<noteq> []" "Sequence.reverse (gm t) \<noteq> []"
    using nc by auto
  from compute_gm_max_ok [OF ng kv] gmx obtain ig where
    ig: "argmax (Sequence.raw (gm t)) = Inr ig" "where' (gm_max t) = where_of ig k"
    by auto
  from compute_I_max_ok [OF nc kv] imx obtain jx where
    jx: "argmax (abs_arr (Sequence.raw (I t))) = Inr jx" "where' (I_max t) = where_of jx k"
    by auto
  from compute_I_min_ok [OF nc kv] imn obtain jn where
    jn: "argmin (abs_arr (Sequence.raw (I t))) = Inr jn" "where' (I_min t) = where_of jn k"
    by auto
  from compute_Von_ok [OF l nv kv, of device_type] von obtain s iv where
    iv: "safe_diff (log_Id (Sequence.raw (I t))) (Sequence.raw (Vg t)) = Inr s"
      "slope_index device_type s = Inr iv" "where' (Von t) = where_of iv k"
    by auto
  have "\<forall>(i, p) \<in> {(ig, gm_max t), (jx, I_max t), (jn, I_min t), (iv, Von t)}.
           (i < k \<longrightarrow> where' p = ''forward'')
         \<and> (i = k \<longrightarrow> where' p = ''turning_point'')
         \<and> (i > k \<longrightarrow> where' p = ''reverse'')
         \<and> (k = 0 \<longrightarrow> where' p \<noteq> ''forward''
               \<and> (i = 0 \<longrightarrow> where' p = ''turning_point'')
               \<and> (i > 0 \<longrightarrow> where' p = ''reverse''))"
    using ig(2) jx(2) jn(2) iv(3) where_of_cases where_of_zero by simp
  then show ?thesis
    using t k(1) ig(1) jx(1) jn(1) iv(1,2) unfolding vg cur split_at_simps by blast
qed


theorem where_by_index_against_turning_index_witness:
  "wf_ndarray demo_x \<and> wf_ndarray demo_y \<and> validate demo_x demo_y = Inr ()
   \<and> (\<exists>t. Transfer_init demo_x demo_y ''N'' = Inr t
        \<and> where' (I_max t) = ''reverse'' \<and> where' (I_min t) = ''forward'')
   \<and> (\<exists>t. Transfer_init \<lparr>shape = [3], data = [Fin 3, Fin 2, Fin 1]\<rparr>
              \<lparr>shape = [3], data = [Fin 1, Fin 5, Fin 2]\<rparr> ''N'' = Inr t
        \<and> where' (I_max t) = ''reverse'' \<and> where' (I_min t) = ''turning_point'')"
proof -
  have a: "\<exists>t. Transfer_init demo_x demo_y ''N'' = Inr t
        \<and> where' (I_max t) = ''reverse'' \<and> where' (I_min t) = ''forward''"
  proof -
    from where_by_index_against_turning_index [OF demo_valid, of "''N''"]
    obtain t k ig imx imn s iv where
      t: "Transfer_init demo_x demo_y ''N'' = Inr t"
      and k: "argmax (map fin (data demo_x)) = Inr k"
      and i: "argmax (abs_arr (map fin (data demo_y))) = Inr imx"
        "argmin (abs_arr (map fin (data demo_y))) = Inr imn"
      and w: "\<forall>(i, p) \<in> {(ig, gm_max t), (imx, I_max t), (imn, I_min t), (iv, Von t)}.
           (i < k \<longrightarrow> where' p = ''forward'')
         \<and> (i = k \<longrightarrow> where' p = ''turning_point'')
         \<and> (i > k \<longrightarrow> where' p = ''reverse'')
         \<and> (k = 0 \<longrightarrow> where' p \<noteq> ''forward''
               \<and> (i = 0 \<longrightarrow> where' p = ''turning_point'')
               \<and> (i > 0 \<longrightarrow> where' p = ''reverse''))"
      by blast
    have "k = 3" using k by (simp add: demo_argmax)
    moreover have "imx = 5" "imn = 0"
      using i by (simp_all add: demo_data abs_arr_def argmax_def argmin_def)
    ultimately show ?thesis using t w by auto
  qed
  let ?x = "\<lparr>shape = [3], data = [Fin 3, Fin 2, Fin 1]\<rparr>"
  let ?y = "\<lparr>shape = [3], data = [Fin 1, Fin 5, Fin 2]\<rparr>"
  have v: "wf_ndarray ?x" "wf_ndarray ?y" "validate ?x ?y = Inr ()"
    by (simp_all add: wf_ndarray_def validate_def ndim_def size_arr_def
        any_arr_def isnan_def isinf_def)
  have b: "\<exists>t. Transfer_init ?x ?y ''N'' = Inr t
        \<and> where' (I_max t) = ''reverse'' \<and> where' (I_min t) = ''turning_point''"
  proof -
    from where_by_index_against_turning_index [OF v, of "''N''"]
    obtain t k ig imx imn s iv where
      t: "Transfer_init ?x ?y ''N'' = Inr t"
      and k: "argmax (map fin (data ?x)) = Inr k"
      and i: "argmax (abs_arr (map fin (data ?y))) = Inr imx"
        "argmin (abs_arr (map fin (data ?y))) = Inr imn"
      and w: "\<forall>(i, p) \<in> {(ig, gm_max t), (imx, I_max t), (imn, I_min t), (iv, Von t)}.
           (i < k \<longrightarrow> where' p = ''forward'')
         \<and> (i = k \<longrightarrow> where' p = ''turning_point'')
         \<and> (i > k \<longrightarrow> where' p = ''reverse'')
         \<and> (k = 0 \<longrightarrow> where' p \<noteq> ''forward''
               \<and> (i = 0 \<longrightarrow> where' p = ''turning_point'')
               \<and> (i > 0 \<longrightarrow> where' p = ''reverse''))"
      by blast
    have "k = 0" using k by (simp add: argmax_def)
    moreover have "imx = 1" "imn = 0"
      using i by (simp_all add: abs_arr_def argmax_def argmin_def)
    ultimately show ?thesis using t w by auto
  qed
  show ?thesis using demo_valid a b by blast
qed

lemma set_abs_arr: "set (abs_arr a) = abs ` set a"
  by (simp add: abs_arr_def)

text \<open>
  Claim C9.  The forward and reverse fields of the peak transconductance are the maxima
  of the derivative computed on the forward leg and on the reverse leg; those of the
  peak and of the minimum of \<open>|I|\<close> are the maximum and the minimum of \<open>|I|\<close> over the
  forward leg and over the reverse leg.  None of them is taken from the raw extremum.
\<close>

theorem leg_fields_are_leg_extrema:
  assumes "wf_ndarray x" "wf_ndarray y" "validate x y = Inr ()"
  shows "\<exists>t k fw rv. Transfer_init x y device_type = Inr t
     \<and> argmax (map fin (data x)) = Inr k
     \<and> safe_diff (take (k + 1) (map fin (data y))) (take (k + 1) (map fin (data x))) = Inr fw
     \<and> safe_diff (drop k (map fin (data y))) (drop k (map fin (data x))) = Inr rv
     \<and> Sequence.forward (gm t) = fw \<and> Sequence.reverse (gm t) = rv
     \<and> Point.forward (gm_max t) = Some (Max (set fw))
     \<and> Point.reverse (gm_max t) = Some (Max (set rv))
     \<and> Point.forward (I_max t) = Some (Max (abs ` set (take (k + 1) (map fin (data y)))))
     \<and> Point.reverse (I_max t) = Some (Max (abs ` set (drop k (map fin (data y)))))
     \<and> Point.forward (I_min t) = Some (Min (abs ` set (take (k + 1) (map fin (data y)))))
     \<and> Point.reverse (I_min t) = Some (Min (abs ` set (drop k (map fin (data y)))))
     \<and> Point.raw (gm_max t) = Max (set (Sequence.raw (gm t)))
     \<and> Point.raw (I_max t) = Max (abs ` set (map fin (data y)))
     \<and> Point.raw (I_min t) = Min (abs ` set (map fin (data y)))"
proof -
  from Transfer_init_ok [OF assms, of device_type] obtain k t where
    k: "argmax (map fin (data x)) = Inr k" "k < length (data x)"
    and len: "length (data y) = length (data x)"
    and t: "Transfer_init x y device_type = Inr t"
    and vg: "Vg t = split_at k (map fin (data x))"
    and cur: "I t = split_at k (map fin (data y))"
    and g: "compute_gm (Vg t) (I t) = Inr (gm t)"
    and gmx: "compute_gm_max (Vg t) (gm t) = Inr (gm_max t)"
    and imx: "compute_I_max (Vg t) (I t) = Inr (I_max t)"
    and imn: "compute_I_min (Vg t) (I t) = Inr (I_min t)"
    by blast
  have lx: "k < length (map fin (data x))" and ly: "k < length (map fin (data y))"
    using k(2) len by simp_all
  note sx = split_at_turning_sample [OF lx] and sy = split_at_turning_sample [OF ly]
  have l: "length (Sequence.raw (I t)) = length (Sequence.raw (Vg t))"
    "length (Sequence.forward (I t)) = length (Sequence.forward (Vg t))"
    "length (Sequence.reverse (I t)) = length (Sequence.reverse (Vg t))"
    using len by (simp_all add: vg cur split_at_simps)
  have nc: "Sequence.raw (I t) \<noteq> []" "Sequence.forward (I t) \<noteq> []"
    "Sequence.reverse (I t) \<noteq> []"
    using ly sy(1,2) by (auto simp: cur split_at_simps)
  have kv: "argmax (Sequence.raw (Vg t)) = Inr k" using k(1) by (simp add: vg split_at_simps)
  from compute_gm_ok [OF l] obtain r fw rv where
    fw0: "safe_diff (Sequence.forward (I t)) (Sequence.forward (Vg t)) = Inr fw"
    and rv0: "safe_diff (Sequence.reverse (I t)) (Sequence.reverse (Vg t)) = Inr rv"
    and lens: "length r = length (Sequence.raw (I t))"
      "length fw = length (Sequence.forward (I t))"
      "length rv = length (Sequence.reverse (I t))"
    and g': "compute_gm (Vg t) (I t) = Inr \<lparr>Sequence.raw = r, Sequence.forward = fw, Sequence.reverse = rv\<rparr>"
    by blast
  have gt: "gm t = \<lparr>Sequence.raw = r, Sequence.forward = fw, Sequence.reverse = rv\<rparr>"
    using g g' by simp
  have fw: "safe_diff (Sequence.forward (I t)) (Sequence.forward (Vg t)) = Inr fw"
      "Sequence.forward (gm t) = fw"
    and rv: "safe_diff (Sequence.reverse (I t)) (Sequence.reverse (Vg t)) = Inr rv"
      "Sequence.reverse (gm t) = rv"
    using fw0 rv0 gt by simp_all
  have "r \<noteq> []" "fw \<noteq> []" "rv \<noteq> []" using lens nc by (metis length_0_conv)+
  then have ng: "Sequence.raw (gm t) \<noteq> []" "Sequence.forward (gm t) \<noteq> []"
      "Sequence.reverse (gm t) \<noteq> []"
    using gt by simp_all
  from compute_gm_max_ok [OF ng kv] gmx have
    p1: "Point.forward (gm_max t) = Some (Max (set fw))"
      "Point.reverse (gm_max t) = Some (Max (set rv))"
      "Point.raw (gm_max t) = Max (set (Sequence.raw (gm t)))"
    using fw(2) rv(2) by auto
  from compute_I_max_ok [OF nc kv] imx have
    p2: "Point.forward (I_max t) = Some (Max (abs ` set (Sequence.forward (I t))))"
      "Point.reverse (I_max t) = Some (Max (abs ` set (Sequence.reverse (I t))))"
      "Point.raw (I_max t) = Max (abs ` set (Sequence.raw (I t)))"
    by (auto simp: set_abs_arr)
  from compute_I_min_ok [OF nc kv] imn have
    p3: "Point.forward (I_min t) = Some (Min (abs ` set (Sequence.forward (I t))))"
      "Point.reverse (I_min t) = Some (Min (abs ` set (Sequence.reverse (I t))))"
      "Point.raw (I_min t) = Min (abs ` set (Sequence.raw (I t)))"
    by (auto simp: set_abs_arr)
  show ?thesis
    using t k(1) fw rv p1 p2 p3 unfolding vg cur split_at_simps
    by (intro exI [of _ t] exI [of _ k] exI [of _ fw] exI [of _ rv]) simp
qed

theorem leg_fields_are_leg_extrema_witness:
  "wf_ndarray demo_x \<and> wf_ndarray demo_y \<and> validate demo_x demo_y = Inr ()
   \<and> (\<exists>t. Transfer_init demo_x demo_y ''N'' = Inr t
        \<and> Point.raw (I_max t) = 23 \<and> Point.forward (I_max t) = Some 6
        \<and> Point.reverse (I_max t) = Some 23
        \<and> Point.raw (I_min t) = 0 \<and> Point.forward (I_min t) = Some 0
        \<and> Point.reverse (I_min t) = Some 6)"
proof -
  from leg_fields_are_leg_extrema [OF demo_valid, of "''N''"] obtain t k where
    t: "Transfer_init demo_x demo_y ''N'' = Inr t"
    and k: "argmax (map fin (data demo_x)) = Inr k"
    and p: "Point.forward (I_max t) = Some (Max (abs ` set (take (k + 1) (map fin (data demo_y)))))"
     "Point.reverse (I_max t) = Some (Max (abs ` set (drop k (map fin (data demo_y)))))"
     "Point.forward (I_min t) = Some (Min (abs ` set (take (k + 1) (map fin (data demo_y)))))"
     "Point.reverse (I_min t) = Some (Min (abs ` set (drop k (map fin (data demo_y)))))"
     "Point.raw (I_max t) = Max (abs ` set (map fin (data demo_y)))"
     "Point.raw (I_min t) = Min (abs ` set (map fin (data demo_y)))"
    by blast
  have k3: "k = 3" using k by (simp add: demo_argmax)
  have "Point.raw (I_max t) = 23" "Point.forward (I_max t) = Some 6"
    "Point.reverse (I_max t) = Some 23"
    "Point.raw (I_min t) = 0" "Point.forward (I_min t) = Some 0"
    "Point.reverse (I_min t) = Some 6"
    using p by (simp_all add: k3 demo_data numeral_eq_Suc)
  then show ?thesis using t demo_valid by blast
qed

section \<open>Claims about validation\<close>

lemma Transfer_init_error:
  "validate x y = Inl e \<Longrightarrow> Transfer_init x y device_type = Inl e"
  by (simp add: Transfer_init_def bind_err_def)

lemma validate_cases:
  assumes "wf_ndarray x" "wf_ndarray y"
  shows "validate x y =
     (if ndim x \<noteq> 1 \<or> ndim y \<noteq> 1 then
        Inl (ValueError ''x and y must be 1D arrays.'')
      else if length (data x) \<noteq> length (data y) then
        Inl (ValueError ''x and y must have the same length.'')
      else if data x = [] then
        Inl (ValueError ''x and y must not be empty.'')
      else if NaN \<in> set (data x) \<union> set (data y) then
        Inl (ValueError ''x and y must not contain NaN values.'')
      else if PosInf \<in> set (data x) \<union> set (data y) \<or> NegInf \<in> set (data x) \<union> set (data y) then
        Inl (ValueError ''x and y must not contain infinite values.'')
      else Inr ())"
proof (cases "ndim x \<noteq> 1 \<or> ndim y \<noteq> 1")
  case True
  then show ?thesis by (simp add: validate_def)
next
  case False
  then have s: "shape x = [length (data x)]" "shape y = [length (data y)]"
    using assms by (simp_all add: one_axis)
  have n: "any_arr isnan x \<or> any_arr isnan y \<longleftrightarrow> NaN \<in> set (data x) \<union> set (data y)"
    by (auto simp: any_arr_def list_ex_iff isnan_def)
  have i: "any_arr isinf x \<or> any_arr isinf y \<longleftrightarrow>
      PosInf \<in> set (data x) \<union> set (data y) \<or> NegInf \<in> set (data x) \<union> set (data y)"
    by (auto simp: any_arr_def list_ex_iff isinf_def)
  show ?thesis
    unfolding validate_def n i using False s by (auto simp: size_arr_def)
qed


text \<open>
  Claim C6.  The constructor checks its two arrays before it computes anything, in this
  order: one axis each, equal length, not empty, no NaN, no infinity.  The first check
  that fails decides the error, each check has an error of its own (in the source a
  \<^verbatim>\<open>ValueError\<close> with its own message; the first two are the shape errors), and a
  failure returns the error alone.  When every check passes an object is built.
\<close>

theorem validation_order:
  assumes "wf_ndarray x" "wf_ndarray y"
  shows "(\<exists>t. Transfer_init x y device_type =
     (if ndim x \<noteq> 1 \<or> ndim y \<noteq> 1 then
        Inl (ValueError ''x and y must be 1D arrays.'')
      else if length (data x) \<noteq> length (data y) then
        Inl (ValueError ''x and y must have the same length.'')
      else if data x = [] then
        Inl (ValueError ''x and y must not be empty.'')
      else if NaN \<in> set (data x) \<union> set (data y) then
        Inl (ValueError ''x and y must not contain NaN values.'')
      else if PosInf \<in> set (data x) \<union> set (data y) \<or> NegInf \<in> set (data x) \<union> set (data y) then
        Inl (ValueError ''x and y must not contain infinite values.'')
      else Inr t))
   \<and> distinct [ValueError ''x and y must be 1D arrays.'',
        ValueError ''x and y must have the same length.'',
        ValueError ''x and y must not be empty.'',
        ValueError ''x and y must not contain NaN values.'',
        ValueError ''x and y must not contain infinite values.'']"
proof
  show "distinct [ValueError ''x and y must be 1D arrays.'',
        ValueError ''x and y must have the same length.'',
        ValueError ''x and y must not be empty.'',
        ValueError ''x and y must not contain NaN values.'',
        ValueError ''x and y must not contain infinite values.'']"
    by simp
  show "\<exists>t. Transfer_init x y device_type =
     (if ndim x \<noteq> 1 \<or> ndim y \<noteq> 1 then
        Inl (ValueError ''x and y must be 1D arrays.'')
      else if length (data x) \<noteq> length (data y) then
        Inl (ValueError ''x and y must have the same length.'')
      else if data x = [] then
        Inl (ValueError ''x and y must not be empty.'')
      else if NaN \<in> set (data x) \<union> set (data y) then
        Inl (ValueError ''x and y must not contain NaN values.'')
      else if PosInf \<in> set (data x) \<union> set (data y) \<or> NegInf \<in> set (data x) \<union> set (data y) then
        Inl (ValueError ''x and y must not contain infinite values.'')
      else Inr t)"
  proof (cases "validate x y")
    case (Inl e)
    then have "Transfer_init x y device_type = Inl e"
      by (simp add: Transfer_init_error)
    then show ?thesis
      using Inl unfolding validate_cases [OF assms] by (auto split: if_splits)
  next
    case (Inr u)
    then have v: "validate x y = Inr ()" by simp
    from Transfer_init_ok [OF assms v, of device_type] obtain t where
      "Transfer_init x y device_type = Inr t" by blast
    then show ?thesis
      using v unfolding validate_cases [OF assms] by (auto split: if_splits)
  qed
qed

theorem validation_order_witness:
  "wf_ndarray \<lparr>shape = [2], data = [Fin 0, NaN]\<rparr>
   \<and> wf_ndarray \<lparr>shape = [2], data = [PosInf, Fin 1]\<rparr>
   \<and> Transfer_init \<lparr>shape = [2], data = [Fin 0, NaN]\<rparr>
        \<lparr>shape = [2], data = [PosInf, Fin 1]\<rparr> ''N''
      = Inl (ValueError ''x and y must not contain NaN values.'')
   \<and> wf_ndarray \<lparr>shape = [0], data = []\<rparr>
   \<and> wf_ndarray \<lparr>shape = [1], data = [NaN]\<rparr>
   \<and> Transfer_init \<lparr>shape = [0], data = []\<rparr> \<lparr>shape = [1], data = [NaN]\<rparr> ''N''
      = Inl (ValueError ''x and y must have the same length.'')"
proof -
  let ?x = "\<lparr>shape = [2], data = [Fin 0, NaN]\<rparr>"
  let ?y = "\<lparr>shape = [2], data = [PosInf, Fin 1]\<rparr>"
  let ?u = "\<lparr>shape = [0], data = []\<rparr> :: ndarray"
  let ?v = "\<lparr>shape = [1], data = [NaN]\<rparr>"
  have w: "wf_ndarray ?x" "wf_ndarray ?y" "wf_ndarray ?u" "wf_ndarray ?v"
    by (simp_all add: wf_ndarray_def)
  have "Transfer_init ?x ?y ''N'' = Inl (ValueError ''x and y must not contain NaN values.'')"
    using validation_order [OF w(1,2), of "''N''"] by (simp add: ndim_def)
  moreover have "Transfer_init ?u ?v ''N'' = Inl (ValueError ''x and y must have the same length.'')"
    using validation_order [OF w(3,4), of "''N''"] by (simp add: ndim_def)
  ultimately show ?thesis using w by simp
qed

section \<open>Claims about the threshold voltage\<close>

lemma upper_N_P: "upper ''N'' = ''N''" "upper ''P'' \<noteq> ''N''"
  by (simp_all add: upper_def upper_char_def)

lemma slope_index_N:
  assumes "s \<noteq> []" "slope_index ''N'' s = Inr i"
  shows "i < length s \<and> (\<forall>j<length s. s ! j \<le> s ! i) \<and> (\<forall>j<i. s ! j < s ! i)"
  using argmax_first_max [OF assms(1)] assms(2) by (auto simp: slope_index_def upper_N_P)

lemma slope_index_P:
  assumes "s \<noteq> []" "slope_index ''P'' s = Inr i"
  shows "i < length s \<and> (\<forall>j<length s. s ! i \<le> s ! j) \<and> (\<forall>j<i. s ! i < s ! j)"
  using argmin_first_min [OF assms(1)] assms(2) by (auto simp: slope_index_def upper_N_P)

lemma log_Id_map: "log_Id b = map (\<lambda>c. log 10 (max \<bar>c\<bar> eps)) b"
  by (simp add: log_Id_def abs_arr_def)

lemma log_Id_zeros: "\<forall>c \<in> set b. c = 0 \<Longrightarrow> log_Id b = replicate (length b) (log 10 eps)"
proof (rule nth_equalityI)
  show "length (log_Id b) = length (replicate (length b) (log 10 eps))"
    by (simp add: log_Id_map)
next
  fix i assume "i < length (log_Id b)"
  then have i: "i < length b" by (simp add: log_Id_map)
  assume "\<forall>c \<in> set b. c = 0"
  then have "b ! i = 0" using i by simp
  then show "log_Id b ! i = replicate (length b) (log 10 eps) ! i"
    using i eps_pos by (simp add: log_Id_map max_def)
qed

lemma safe_diff_const:
  assumes "length f \<le> length x" "\<forall>v \<in> set f. v = c"
  shows "safe_diff f x = Inr (replicate (length f) 0)"
proof (cases "length f < 2")
  case True
  then show ?thesis by (rule safe_diff_short)
next
  case False
  then have two: "2 \<le> length f" by simp
  have c: "f ! i = c" if "i < length f" for i using assms(2) that by simp
  have c0: "f ! 0 = c" "f ! 1 = c" "f ! (length f - 1) = c" "f ! (length f - 2) = c"
    using two by (auto intro: c)
  from safe_diff_ok [OF two assms(1)] obtain df where df: "safe_diff f x = Inr df"
    "length df = length f"
    and d0: "df ! 0 = (f ! 1 - f ! 0) / clamp_dx (x ! 1 - x ! 0)"
    and dl: "df ! (length f - 1) =
       (f ! (length f - 1) - f ! (length f - 2)) / clamp_dx (x ! (length x - 1) - x ! (length x - 2))"
    and di: "\<And>i. 0 < i \<Longrightarrow> i < length f - 1 \<Longrightarrow>
       df ! i = ((f ! i - f ! (i - 1)) / clamp_dx (x ! i - x ! (i - 1))
                + (f ! (i + 1) - f ! i) / clamp_dx (x ! (i + 1) - x ! i)) / 2"
    by blast
  have "df ! i = 0" if i: "i < length f" for i
  proof -
    consider "i = 0" | "i = length f - 1" "i \<noteq> 0" | "0 < i" "i < length f - 1"
      using i by linarith
    then show ?thesis
    proof cases
      case 1
      then show ?thesis using d0 c0 by simp
    next
      case 2
      then show ?thesis using dl c0 by simp
    next
      case 3
      then show ?thesis using di [of i] c [of i] c [of "i - 1"] c [of "i + 1"] by simp
    qed
  qed
  then have "df = replicate (length f) 0" using df(2) by (intro nth_equalityI) simp_all
  then show ?thesis using df(1) by simp
qed

lemma slope_index_zeros:
  assumes "0 < n"
  shows "slope_index device_type (replicate n 0) = Inr 0"
proof -
  have ne: "replicate n (0::real) \<noteq> []" using assms by simp
  from argmax_first_max [OF ne] obtain k where
    k: "argmax (replicate n 0) = Inr k" "k < n" "\<forall>j<k. replicate n (0::real) ! j < replicate n 0 ! k"
    by auto
  have "k = 0"
  proof (rule ccontr)
    assume "k \<noteq> 0"
    then have "replicate n (0::real) ! 0 < replicate n 0 ! k" using k(3) by blast
    then show False using k(2) by simp
  qed
  from argmin_first_min [OF ne] obtain m where
    m: "argmin (replicate n 0) = Inr m" "m < n" "\<forall>j<m. replicate n (0::real) ! m < replicate n 0 ! j"
    by auto
  have "m = 0"
  proof (rule ccontr)
    assume "m \<noteq> 0"
    then have "replicate n (0::real) ! m < replicate n 0 ! 0" using m(3) by blast
    then show False using m(2) by simp
  qed
  show ?thesis using k(1) m(1) \<open>k = 0\<close> \<open>m = 0\<close> by (simp add: slope_index_def)
qed

text \<open>One leg of \<open>Von\<close> on an all-zero current.\<close>

lemma Von_leg_zero_current:
  assumes "length b = length a" "a \<noteq> []" "\<forall>c \<in> set b. c = 0"
    "safe_diff (log_Id b) a = Inr s" "slope_index device_type s = Inr i"
  shows "i = 0"
proof -
  have "safe_diff (log_Id b) a = Inr (replicate (length (log_Id b)) 0)"
    using assms(1) by (intro safe_diff_const [where c = "log 10 eps"])
      (auto simp: log_Id_zeros [OF assms(3)])
  then have "s = replicate (length a) 0"
    using assms(1,4) by (simp add: log_Id_map)
  then show ?thesis
    using assms(2,5) slope_index_zeros [of "length a" device_type] by simp
qed

lemma Von_leg_selected:
  assumes "s \<noteq> []" "slope_index device_type s = Inr i"
  shows "i < length s
     \<and> (device_type = ''N'' \<longrightarrow> (\<forall>j<length s. s ! j \<le> s ! i) \<and> (\<forall>j<i. s ! j < s ! i))
     \<and> (device_type = ''P'' \<longrightarrow> (\<forall>j<length s. s ! i \<le> s ! j) \<and> (\<forall>j<i. s ! i < s ! j))"
  using slope_index_ok [OF assms(1), of device_type] assms(2)
    slope_index_N [OF assms(1), of i] slope_index_P [OF assms(1), of i]
  by auto

text \<open>
  Claim C4.  For each of raw, forward and reverse, \<open>Von\<close> is obtained from the leg of
  \<open>I\<close> and the leg of \<open>Vg\<close> alone: \<open>log10\<close> of \<open>|I|\<close> floored at \<open>1e-12\<close> (so the
  argument of the logarithm is positive), the derivative routine against the leg of
  \<open>Vg\<close>, the first index of the largest log-slope for polarity \<open>N\<close> and of the
  smallest for \<open>P\<close>, and the entry of the leg of \<open>Vg\<close> at that index.  With an all-zero
  current the logarithm is taken of \<open>1e-12\<close> throughout, the constructor returns, and
  the three values are the first sample of each leg of \<open>Vg\<close>.
\<close>

theorem Von_at_extremal_log_slope:
  assumes "wf_ndarray x" "wf_ndarray y" "validate x y = Inr ()"
  shows "\<exists>t k. Transfer_init x y device_type = Inr t
     \<and> argmax (map fin (data x)) = Inr k
     \<and> Vg t = split_at k (map fin (data x)) \<and> I t = split_at k (map fin (data y))
     \<and> (\<forall>(a, b, v) \<in> {(Sequence.raw (Vg t), Sequence.raw (I t), Some (Point.raw (Von t))),
                      (Sequence.forward (Vg t), Sequence.forward (I t), Point.forward (Von t)),
                      (Sequence.reverse (Vg t), Sequence.reverse (I t), Point.reverse (Von t))}.
           (\<forall>c \<in> set b. 0 < max \<bar>c\<bar> eps)
         \<and> (\<exists>s i. safe_diff (map (\<lambda>c. log 10 (max \<bar>c\<bar> eps)) b) a = Inr s
               \<and> length s = length a \<and> i < length s \<and> v = Some (a ! i)
               \<and> (device_type = ''N'' \<longrightarrow>
                     (\<forall>j<length s. s ! j \<le> s ! i) \<and> (\<forall>j<i. s ! j < s ! i))
               \<and> (device_type = ''P'' \<longrightarrow>
                     (\<forall>j<length s. s ! i \<le> s ! j) \<and> (\<forall>j<i. s ! i < s ! j))))
     \<and> ((\<forall>c \<in> set (data y). c = Fin 0) \<longrightarrow>
           map (\<lambda>c. log 10 (max \<bar>c\<bar> eps)) (Sequence.raw (I t))
             = replicate (length (data y)) (log 10 eps)
         \<and> Point.raw (Von t) = fin (data x ! 0)
         \<and> Point.forward (Von t) = Some (fin (data x ! 0))
         \<and> Point.reverse (Von t) = Some (fin (data x ! k)))"
proof -
  from Transfer_init_ok [OF assms, of device_type] obtain k t where
    k: "argmax (map fin (data x)) = Inr k" "k < length (data x)"
    and len: "length (data y) = length (data x)"
    and t: "Transfer_init x y device_type = Inr t"
    and vg: "Vg t = split_at k (map fin (data x))"
    and cur: "I t = split_at k (map fin (data y))"
    and von: "compute_Von (Vg t) (I t) device_type = Inr (Von t)"
    by blast
  have lx: "k < length (map fin (data x))" and ly: "k < length (map fin (data y))"
    using k(2) len by simp_all
  note sx = split_at_turning_sample [OF lx]
  have l: "length (Sequence.raw (I t)) = length (Sequence.raw (Vg t))"
    "length (Sequence.forward (I t)) = length (Sequence.forward (Vg t))"
    "length (Sequence.reverse (I t)) = length (Sequence.reverse (Vg t))"
    using len by (simp_all add: vg cur split_at_simps)
  have nv: "Sequence.raw (Vg t) \<noteq> []" "Sequence.forward (Vg t) \<noteq> []"
    "Sequence.reverse (Vg t) \<noteq> []"
    using lx sx(1,2) by (auto simp: vg split_at_simps)
  have kv: "argmax (Sequence.raw (Vg t)) = Inr k" using k(1) by (simp add: vg split_at_simps)
  from compute_Von_ok [OF l nv kv, of device_type] von obtain s i sf jf sr jr where
    r: "safe_diff (log_Id (Sequence.raw (I t))) (Sequence.raw (Vg t)) = Inr s"
       "slope_index device_type s = Inr i"
       "Point.raw (Von t) = Sequence.raw (Vg t) ! i"
    and f: "safe_diff (log_Id (Sequence.forward (I t))) (Sequence.forward (Vg t)) = Inr sf"
       "slope_index device_type sf = Inr jf"
       "Point.forward (Von t) = Some (Sequence.forward (Vg t) ! jf)"
    and v: "safe_diff (log_Id (Sequence.reverse (I t))) (Sequence.reverse (Vg t)) = Inr sr"
       "slope_index device_type sr = Inr jr"
       "Point.reverse (Von t) = Some (Sequence.reverse (Vg t) ! jr)"
    by auto
  have leg: "(\<forall>c \<in> set b. 0 < max \<bar>c\<bar> eps)
         \<and> (\<exists>s i. safe_diff (map (\<lambda>c. log 10 (max \<bar>c\<bar> eps)) b) a = Inr s
               \<and> length s = length a \<and> i < length s \<and> Some (a ! j) = Some (a ! i)
               \<and> (device_type = ''N'' \<longrightarrow>
                     (\<forall>j<length s. s ! j \<le> s ! i) \<and> (\<forall>j<i. s ! j < s ! i))
               \<and> (device_type = ''P'' \<longrightarrow>
                     (\<forall>j<length s. s ! i \<le> s ! j) \<and> (\<forall>j<i. s ! i < s ! j)))"
    if "length b = length a" "a \<noteq> []" "safe_diff (log_Id b) a = Inr u"
      "slope_index device_type u = Inr j"
    for a b u j
  proof -
    have lu: "length u = length a"
      using safe_diff_length [OF that(3)] that(1) by (simp add: log_Id_map)
    then have "u \<noteq> []" using that(2) by auto
    from Von_leg_selected [OF this that(4)] lu that(3) have
      "\<exists>s i. safe_diff (map (\<lambda>c. log 10 (max \<bar>c\<bar> eps)) b) a = Inr s
               \<and> length s = length a \<and> i < length s \<and> Some (a ! j) = Some (a ! i)
               \<and> (device_type = ''N'' \<longrightarrow>
                     (\<forall>j<length s. s ! j \<le> s ! i) \<and> (\<forall>j<i. s ! j < s ! i))
               \<and> (device_type = ''P'' \<longrightarrow>
                     (\<forall>j<length s. s ! i \<le> s ! j) \<and> (\<forall>j<i. s ! i < s ! j))"
      unfolding log_Id_map by (intro exI [of _ u] exI [of _ j]) simp
    moreover have "\<forall>c \<in> set b. 0 < max \<bar>c\<bar> eps" using eps_pos by (auto simp: max_def)
    ultimately show ?thesis by blast
  qed
  have legs: "\<forall>(a, b, v) \<in> {(Sequence.raw (Vg t), Sequence.raw (I t), Some (Point.raw (Von t))),
                      (Sequence.forward (Vg t), Sequence.forward (I t), Point.forward (Von t)),
                      (Sequence.reverse (Vg t), Sequence.reverse (I t), Point.reverse (Von t))}.
           (\<forall>c \<in> set b. 0 < max \<bar>c\<bar> eps)
         \<and> (\<exists>s i. safe_diff (map (\<lambda>c. log 10 (max \<bar>c\<bar> eps)) b) a = Inr s
               \<and> length s = length a \<and> i < length s \<and> v = Some (a ! i)
               \<and> (device_type = ''N'' \<longrightarrow>
                     (\<forall>j<length s. s ! j \<le> s ! i) \<and> (\<forall>j<i. s ! j < s ! i))
               \<and> (device_type = ''P'' \<longrightarrow>
                     (\<forall>j<length s. s ! i \<le> s ! j) \<and> (\<forall>j<i. s ! i < s ! j)))"
    using leg [OF l(1) nv(1) r(1,2)] leg [OF l(2) nv(2) f(1,2)] leg [OF l(3) nv(3) v(1,2)]
    unfolding r(3) f(3) v(3) by simp
  have zero: "map (\<lambda>c. log 10 (max \<bar>c\<bar> eps)) (Sequence.raw (I t))
             = replicate (length (data y)) (log 10 eps)
         \<and> Point.raw (Von t) = fin (data x ! 0)
         \<and> Point.forward (Von t) = Some (fin (data x ! 0))
         \<and> Point.reverse (Von t) = Some (fin (data x ! k))"
    if z: "\<forall>c \<in> set (data y). c = Fin 0"
  proof -
    have zr: "\<forall>c \<in> set (Sequence.raw (I t)). c = 0" using z by (auto simp: cur split_at_simps)
    then have zf: "\<forall>c \<in> set (Sequence.forward (I t)). c = 0"
      and zv: "\<forall>c \<in> set (Sequence.reverse (I t)). c = 0"
      by (auto simp: cur split_at_simps dest: in_set_takeD in_set_dropD)
    have "i = 0" by (rule Von_leg_zero_current [OF l(1) nv(1) zr r(1,2)])
    moreover have "jf = 0" by (rule Von_leg_zero_current [OF l(2) nv(2) zf f(1,2)])
    moreover have "jr = 0" by (rule Von_leg_zero_current [OF l(3) nv(3) zv v(1,2)])
    moreover have "map (\<lambda>c. log 10 (max \<bar>c\<bar> eps)) (Sequence.raw (I t))
             = replicate (length (data y)) (log 10 eps)"
      using log_Id_zeros [OF zr] by (simp add: log_Id_map cur split_at_simps)
    moreover have "map fin (data x) ! 0 = fin (data x ! 0)"
      using k(2) by (intro nth_map) auto
    ultimately show ?thesis
      using r(3) f(3) v(3) k(2) by (simp add: vg split_at_simps)
  qed
  show ?thesis
    using t k(1) vg cur legs zero by (intro exI [of _ t] exI [of _ k]) blast
qed


theorem Von_at_extremal_log_slope_witness:
  "wf_ndarray \<lparr>shape = [3], data = [Fin 0, Fin 1, Fin 0]\<rparr>
   \<and> wf_ndarray \<lparr>shape = [3], data = [Fin 0, Fin 0, Fin 0]\<rparr>
   \<and> validate \<lparr>shape = [3], data = [Fin 0, Fin 1, Fin 0]\<rparr>
        \<lparr>shape = [3], data = [Fin 0, Fin 0, Fin 0]\<rparr> = Inr ()
   \<and> (\<exists>t. Transfer_init \<lparr>shape = [3], data = [Fin 0, Fin 1, Fin 0]\<rparr>
              \<lparr>shape = [3], data = [Fin 0, Fin 0, Fin 0]\<rparr> ''P'' = Inr t
        \<and> Point.raw (Von t) = 0 \<and> Point.forward (Von t) = Some 0
        \<and> Point.reverse (Von t) = Some 1)
   \<and> wf_ndarray \<lparr>shape = [3], data = [Fin 0, Fin 1, Fin 2]\<rparr>
   \<and> wf_ndarray \<lparr>shape = [3], data = [Fin 1, Fin 1, Fin 10]\<rparr>
   \<and> validate \<lparr>shape = [3], data = [Fin 0, Fin 1, Fin 2]\<rparr>
        \<lparr>shape = [3], data = [Fin 1, Fin 1, Fin 10]\<rparr> = Inr ()
   \<and> (\<exists>t. Transfer_init \<lparr>shape = [3], data = [Fin 0, Fin 1, Fin 2]\<rparr>
              \<lparr>shape = [3], data = [Fin 1, Fin 1, Fin 10]\<rparr> ''N'' = Inr t
        \<and> Point.raw (Von t) = 2)"
proof -
  let ?x = "\<lparr>shape = [3], data = [Fin 0, Fin 1, Fin 0]\<rparr>"
  let ?y = "\<lparr>shape = [3], data = [Fin 0, Fin 0, Fin 0]\<rparr>"
  let ?u = "\<lparr>shape = [3], data = [Fin 0, Fin 1, Fin 2]\<rparr>"
  let ?v = "\<lparr>shape = [3], data = [Fin 1, Fin 1, Fin 10]\<rparr>"
  have h: "wf_ndarray ?x" "wf_ndarray ?y" "validate ?x ?y = Inr ()"
    by (simp_all add: wf_ndarray_def validate_def ndim_def size_arr_def
        any_arr_def isnan_def isinf_def)
  have g: "wf_ndarray ?u" "wf_ndarray ?v" "validate ?u ?v = Inr ()"
    by (simp_all add: wf_ndarray_def validate_def ndim_def size_arr_def
        any_arr_def isnan_def isinf_def)
  have a: "\<exists>t. Transfer_init ?x ?y ''P'' = Inr t
        \<and> Point.raw (Von t) = 0 \<and> Point.forward (Von t) = Some 0
        \<and> Point.reverse (Von t) = Some 1"
  proof -
    from Von_at_extremal_log_slope [OF h, of "''P''"] obtain t k where
      t: "Transfer_init ?x ?y ''P'' = Inr t"
      and k: "argmax (map fin (data ?x)) = Inr k"
      and z: "(\<forall>c \<in> set (data ?y). c = Fin 0) \<longrightarrow>
           map (\<lambda>c. log 10 (max \<bar>c\<bar> eps)) (Sequence.raw (I t))
             = replicate (length (data ?y)) (log 10 eps)
         \<and> Point.raw (Von t) = fin (data ?x ! 0)
         \<and> Point.forward (Von t) = Some (fin (data ?x ! 0))
         \<and> Point.reverse (Von t) = Some (fin (data ?x ! k))"
      by blast
    have "k = 1" using k by (simp add: argmax_def)
    then show ?thesis using t z by simp
  qed
  have b: "\<exists>t. Transfer_init ?u ?v ''N'' = Inr t \<and> Point.raw (Von t) = 2"
  proof -
    from Von_at_extremal_log_slope [OF g, of "''N''"] obtain t k where
      t: "Transfer_init ?u ?v ''N'' = Inr t"
      and vg: "Vg t = split_at k (map fin (data ?u))"
      and cur: "I t = split_at k (map fin (data ?v))"
      and legs: "\<forall>(a, b, v) \<in> {(Sequence.raw (Vg t), Sequence.raw (I t), Some (Point.raw (Von t))),
                      (Sequence.forward (Vg t), Sequence.forward (I t), Point.forward (Von t)),
                      (Sequence.reverse (Vg t), Sequence.reverse (I t), Point.reverse (Von t))}.
           (\<forall>c \<in> set b. 0 < max \<bar>c\<bar> eps)
         \<and> (\<exists>s i. safe_diff (map (\<lambda>c. log 10 (max \<bar>c\<bar> eps)) b) a = Inr s
               \<and> length s = length a \<and> i < length s \<and> v = Some (a ! i)
               \<and> (''N'' = ''N'' \<longrightarrow>
                     (\<forall>j<length s. s ! j \<le> s ! i) \<and> (\<forall>j<i. s ! j < s ! i))
               \<and> (''N'' = ''P'' \<longrightarrow>
                     (\<forall>j<length s. s ! i \<le> s ! j) \<and> (\<forall>j<i. s ! i < s ! j)))"
      by blast
    have raw: "Sequence.raw (Vg t) = [0, 1, 2]" "Sequence.raw (I t) = [1, 1, 10]"
      by (simp_all add: vg cur split_at_simps)
    from legs obtain s i where
      s: "safe_diff (map (\<lambda>c. log 10 (max \<bar>c\<bar> eps)) [1, 1, 10]) [0, 1, 2] = Inr s"
      and i: "i < length s" "Point.raw (Von t) = [0, 1, 2] ! i"
      and mx: "\<forall>j<length s. s ! j \<le> s ! i"
      unfolding raw by auto
    have "map (\<lambda>c. log 10 (max \<bar>c\<bar> eps)) [1, 1, 10] = [0, 0, 1]"
      by (simp add: eps_def)
    then have "s = [0, 1 / 2, 1]"
      using s by (simp add: safe_diff_closed clamp_dx_def eps_def)
    then have i3: "i < 3" and m3: "\<forall>j<3. [0, 1 / 2, 1 :: real] ! j \<le> [0, 1 / 2, 1] ! i"
      using i(1) mx by simp_all
    from m3 [rule_format, of 2] have le: "[0, 1 / 2, 1 :: real] ! 2 \<le> [0, 1 / 2, 1] ! i" by simp
    from i3 consider "i = 0" | "i = 1" | "i = 2" by linarith
    then have "i = 2" using le by cases simp_all
    then show ?thesis using t i(2) by simp
  qed
  show ?thesis using h g a b by blast
qed

end
